theory Spec2Isabelle
  imports Complex_Main
begin

section \<open>Values of the structure codec (pennylane/utils.py)\<close>

text \<open>
  The codec inspects its arguments with \<^verbatim>\<open>isinstance\<close>. The kinds of value it
  tells apart are the constructors of \<open>pyval\<close>:
  \<^item> \<open>Num\<close>: a \<^verbatim>\<open>numbers.Number\<close> that is not iterable, with its (real) value;
  \<^item> \<open>Var\<close>: a \<^verbatim>\<open>Variable\<close>, the symbolic placeholder, opaque but for its identity;
  \<^item> \<open>PyObj\<close>: any other object that is not iterable and that numpy cannot convert to
    a number, with the name of its type;
  \<^item> \<open>PyList\<close>, \<open>PyTuple\<close>: the built-in sequences;
  \<^item> \<open>NdArray0\<close>: a \<^verbatim>\<open>numpy.ndarray\<close> of shape \<^verbatim>\<open>()\<close>, with its dtype and its one element;
  \<^item> \<open>NdArray\<close>: a \<^verbatim>\<open>numpy.ndarray\<close> of rank at least one, with its dtype and the
    sequence that iterating over it yields (its scalars when the rank is one, its
    sub-arrays along axis 0 otherwise). \<^verbatim>\<open>model.shape[0]\<close> is the length of that
    sequence.
  Text and byte strings, dictionaries, sets, generators and complex numbers are left
  out of the type.
\<close>

datatype dtype = Int64 | Float64 | Complex128 | Object

datatype pyval =
    Num real
  | Var nat
  | PyObj string
  | PyList "pyval list"
  | PyTuple "pyval list"
  | NdArray0 dtype pyval
  | NdArray dtype "pyval list"

text \<open>
  The exceptions. A \<^verbatim>\<open>TypeError\<close> carries the name of the type of the object that
  was refused.
\<close>

datatype error =
    IndexError
  | TypeError string
  | ValueError string
  | OverflowError
  | QuantumFunctionError string

fun is_Variable :: "pyval \<Rightarrow> bool" where
  "is_Variable (Var i) = True"
| "is_Variable v = False"

subsection \<open>\<^verbatim>\<open>_flatten\<close>\<close>

text \<open>
  \<^verbatim>\<open>_flatten\<close> is a generator; \<open>p_flatten\<close> is the list of what it yields (the
  leading underscore of the source's name is written \<open>p_\<close>). For an ndarray the source
  flattens \<^verbatim>\<open>x.flat\<close>, the elements in row-major order, which is the items of the rows in
  turn; \<open>ndarray_flat\<close> below is \<^verbatim>\<open>x.flat\<close>, and \<open>p_flatten_ndarray_flat\<close> relates the two.
\<close>

fun p_flatten :: "pyval \<Rightarrow> pyval list" where
  "p_flatten (NdArray0 d v) = p_flatten v"
| "p_flatten (NdArray d xs) = concat (map p_flatten xs)"
| "p_flatten (PyList xs) = concat (map p_flatten xs)"
| "p_flatten (PyTuple xs) = concat (map p_flatten xs)"
| "p_flatten x = [x]"

fun ndarray_flat :: "pyval \<Rightarrow> pyval list" where
  "ndarray_flat (NdArray0 d v) = [v]"
| "ndarray_flat (NdArray d xs) = concat (map ndarray_flat xs)"
| "ndarray_flat x = [x]"

subsection \<open>\<^verbatim>\<open>np.array(x, dtype=d)\<close>\<close>

text \<open>
  \<^verbatim>\<open>_unflatten\<close> builds its arrays with \<^verbatim>\<open>np.array(x, dtype=d)\<close>, which converts
  every scalar of \<open>x\<close> to the dtype \<open>d\<close>:
  \<^item> under \<^verbatim>\<open>object\<close> any scalar is stored as it is;
  \<^item> a number is stored as it is under \<^verbatim>\<open>float64\<close> and \<^verbatim>\<open>complex128\<close> (the reals stand
    for the floating-point numbers; rounding is not modelled) and is truncated towards
    zero under \<^verbatim>\<open>int64\<close>; a number whose integer part does not fit 64 bits raises
    \<^verbatim>\<open>OverflowError\<close>, as numpy does for a Python \<^verbatim>\<open>int\<close> (for a float of that size
    numpy's result depends on the platform and is not modelled);
  \<^item> a \<^verbatim>\<open>Variable\<close>, or any other object that is not a number, raises \<^verbatim>\<open>TypeError\<close>
    under a numeric dtype.
  An array of shape \<^verbatim>\<open>()\<close> inside \<open>x\<close> counts as its element; lists, tuples and arrays
  inside \<open>x\<close> become further axes of the result, and all of the result has the dtype
  \<open>d\<close> (numpy does so when they are rectangular; ragged arguments are not modelled).
  \<open>np_item d x\<close> is what \<open>x\<close> contributes as an item of the argument, \<open>np_array d x\<close> the
  array that \<^verbatim>\<open>np.array(x, dtype=d)\<close> returns.
\<close>

definition trunc :: "real \<Rightarrow> int" where
  "trunc r = (if 0 \<le> r then \<lfloor>r\<rfloor> else \<lceil>r\<rceil>)"

definition np_cast :: "dtype \<Rightarrow> real \<Rightarrow> error + pyval" where
  "np_cast d r =
     (if d = Int64 then
        (if - (2 ^ 63) \<le> trunc r \<and> trunc r < 2 ^ 63
         then Inr (Num (of_int (trunc r))) else Inl OverflowError)
      else Inr (Num r))"

fun np_item :: "dtype \<Rightarrow> pyval \<Rightarrow> error + pyval"
  and np_items :: "dtype \<Rightarrow> pyval list \<Rightarrow> error + pyval list"
where
  "np_item d (Num r) = np_cast d r"
| "np_item d (Var i) = (if d = Object then Inr (Var i) else Inl (TypeError ''Variable''))"
| "np_item d (PyObj t) = (if d = Object then Inr (PyObj t) else Inl (TypeError t))"
| "np_item d (NdArray0 d' x) = np_item d x"
| "np_item d (NdArray d' xs) =
     (case np_items d xs of Inl e \<Rightarrow> Inl e | Inr ys \<Rightarrow> Inr (NdArray d ys))"
| "np_item d (PyList xs) =
     (case np_items d xs of Inl e \<Rightarrow> Inl e | Inr ys \<Rightarrow> Inr (NdArray d ys))"
| "np_item d (PyTuple xs) =
     (case np_items d xs of Inl e \<Rightarrow> Inl e | Inr ys \<Rightarrow> Inr (NdArray d ys))"
| "np_items d [] = Inr []"
| "np_items d (x # xs) =
     (case np_item d x of
        Inl e \<Rightarrow> Inl e
      | Inr y \<Rightarrow> (case np_items d xs of Inl e \<Rightarrow> Inl e | Inr ys \<Rightarrow> Inr (y # ys)))"

fun is_sequence :: "pyval \<Rightarrow> bool" where
  "is_sequence (NdArray d xs) = True"
| "is_sequence (PyList xs) = True"
| "is_sequence (PyTuple xs) = True"
| "is_sequence x = False"

definition np_array :: "dtype \<Rightarrow> pyval \<Rightarrow> error + pyval" where
  "np_array d x =
     (case np_item d x of
        Inl e \<Rightarrow> Inl e
      | Inr y \<Rightarrow> Inr (if is_sequence x then y else NdArray0 d y))"

subsection \<open>\<^verbatim>\<open>_unflatten\<close> and \<^verbatim>\<open>unflatten\<close>\<close>

text \<open>
  \<open>flat\<close> is a one-dimensional array of items; \<^verbatim>\<open>flat[0]\<close> raises \<^verbatim>\<open>IndexError\<close> when
  it is empty, \<^verbatim>\<open>flat[1:]\<close> never raises.
\<close>

definition flat0 :: "pyval list \<Rightarrow> error + pyval" where
  "flat0 flat = (case flat of [] \<Rightarrow> Inl IndexError | x # rest \<Rightarrow> Inr x)"

definition flat1 :: "pyval list \<Rightarrow> pyval list" where
  "flat1 flat = drop 1 flat"

text \<open>
  The class \<^verbatim>\<open>Unflattener\<close> holds the running tail \<^verbatim>\<open>self.flat\<close> and the flag
  \<^verbatim>\<open>self.encountered_variable\<close>; its generator \<^verbatim>\<open>gen\<close> is run to the end by
  \<^verbatim>\<open>list(...)\<close> or by the constructor of the model's type before \<^verbatim>\<open>tail()\<close> and
  \<^verbatim>\<open>dtype()\<close> are read. \<open>gen\<close> returns the results, the flag and the tail. For an
  array model the list of the results is then handed to \<^verbatim>\<open>np.array\<close> with the dtype
  that \<^verbatim>\<open>dtype()\<close> gives.
\<close>

fun p_unflatten :: "pyval list \<Rightarrow> pyval \<Rightarrow> error + (pyval \<times> pyval list)"
  and gen :: "pyval list \<Rightarrow> pyval list \<Rightarrow> error + (pyval list \<times> bool \<times> pyval list)"
where
  "p_unflatten flat (Num r) =
     (case flat0 flat of Inl e \<Rightarrow> Inl e | Inr x \<Rightarrow> Inr (x, flat1 flat))"
| "p_unflatten flat (Var i) =
     (case flat0 flat of Inl e \<Rightarrow> Inl e | Inr x \<Rightarrow> Inr (x, flat1 flat))"
| "p_unflatten flat (NdArray0 d v) =
     (case flat0 flat of
        Inl e \<Rightarrow> Inl e
      | Inr x \<Rightarrow>
          (case np_array d x of Inl e \<Rightarrow> Inl e | Inr a \<Rightarrow> Inr (a, flat1 flat)))"
| "p_unflatten flat (NdArray d xs) =
     (if length xs = 0 then
        (case flat0 flat of
           Inl e \<Rightarrow> Inl e
         | Inr x \<Rightarrow>
             (case np_array d x of Inl e \<Rightarrow> Inl e | Inr a \<Rightarrow> Inr (a, flat1 flat)))
      else
        (case gen flat xs of
           Inl e \<Rightarrow> Inl e
         | Inr (res, encountered_variable, tail) \<Rightarrow>
             (case np_array (if encountered_variable then Object else d) (PyList res) of
                Inl e \<Rightarrow> Inl e
              | Inr a \<Rightarrow> Inr (a, tail))))"
| "p_unflatten flat (PyList xs) =
     (if length xs = 0 then Inr (PyTuple [], flat)
      else
        (case gen flat xs of
           Inl e \<Rightarrow> Inl e
         | Inr (res, encountered_variable, tail) \<Rightarrow> Inr (PyList res, tail)))"
| "p_unflatten flat (PyTuple xs) =
     (if length xs = 0 then Inr (PyTuple [], flat)
      else
        (case gen flat xs of
           Inl e \<Rightarrow> Inl e
         | Inr (res, encountered_variable, tail) \<Rightarrow> Inr (PyTuple res, tail)))"
| "p_unflatten flat (PyObj t) = Inl (TypeError t)"
| "gen flat [] = Inr ([], False, flat)"
| "gen flat (x # xs) =
     (case p_unflatten flat x of
        Inl e \<Rightarrow> Inl e
      | Inr (res, flat') \<Rightarrow>
          (case gen flat' xs of
             Inl e \<Rightarrow> Inl e
           | Inr (rs, encountered_variable, tail) \<Rightarrow>
               Inr (res # rs, is_Variable res \<or> encountered_variable, tail)))"

text \<open>
  \<^verbatim>\<open>unflatten\<close>: \<^verbatim>\<open>np.asarray(flat)\<close> of a sequence of items is that sequence; the
  \<^verbatim>\<open>print\<close> has no part in the result.
\<close>

definition unflatten :: "pyval list \<Rightarrow> pyval \<Rightarrow> error + pyval" where
  "unflatten flat model =
     (case p_unflatten flat model of
        Inl e \<Rightarrow> Inl e
      | Inr (res, tail) \<Rightarrow>
          if length tail \<noteq> 0
          then Inl (ValueError ''Flattened iterable has more elements than the model.'')
          else Inr res)"

section \<open>The Interferometer template (pennylane/templates/layers.py)\<close>

text \<open>
  The operations \<^verbatim>\<open>Rotation\<close> and \<^verbatim>\<open>Beamsplitter\<close> append themselves to the queue of
  the circuit under construction. The model threads that queue, together with the
  counter \<^verbatim>\<open>n\<close> of free parameters, through the loops; an exception is \<open>Inl\<close> of the
  error and of the queue as it stood when the error was raised.
  A keyword argument (\<^verbatim>\<open>mesh\<close>, \<^verbatim>\<open>beamsplitter\<close>) is a string or a \<^verbatim>\<open>Variable\<close>;
  \<^verbatim>\<open>wires\<close> is a sequence of wires or a single wire.
\<close>

datatype operation =
    Rotation real int
  | Beamsplitter real real int int

datatype kwarg = Str string | VarArg nat

datatype wires_arg = Wire int | Wires "int list"

type_synonym state = "nat \<times> operation list"

type_synonym 'a result = "(error \<times> operation list) + 'a"

fun is_VarArg :: "kwarg \<Rightarrow> bool" where
  "is_VarArg (VarArg i) = True"
| "is_VarArg (Str s) = False"

fun is_Beamsplitter :: "operation \<Rightarrow> bool" where
  "is_Beamsplitter (Beamsplitter t p a b) = True"
| "is_Beamsplitter (Rotation p a) = False"

text \<open>Python indexing of a sequence: a negative index counts from the end.\<close>

definition getitem :: "'a list \<Rightarrow> int \<Rightarrow> error + 'a" where
  "getitem xs i =
     (let len = int (length xs); j = (if i < 0 then len + i else i)
      in if 0 \<le> j \<and> j < len then Inr (xs ! nat j) else Inl IndexError)"

text \<open>\<^verbatim>\<open>range(stop)\<close> and \<^verbatim>\<open>range(start, stop, step)\<close> for a positive step.\<close>

definition range1 :: "int \<Rightarrow> int list" where
  "range1 stop = map int [0..<nat stop]"

definition range3 :: "int \<Rightarrow> int \<Rightarrow> int \<Rightarrow> int list" where
  "range3 start stop step =
     map (\<lambda>i. start + step * int i) [0..<nat ((stop - start + step - 1) div step)]"

text \<open>A \<^verbatim>\<open>for\<close> loop over a sequence whose body may raise.\<close>

fun for_each :: "'a list \<Rightarrow> ('a \<Rightarrow> 's \<Rightarrow> 'e + 's) \<Rightarrow> 's \<Rightarrow> 'e + 's" where
  "for_each [] body s = Inr s"
| "for_each (x # xs) body s =
     (case body x s of Inl e \<Rightarrow> Inl e | Inr s' \<Rightarrow> for_each xs body s')"

text \<open>
  The body of the inner loop of the rectangular mesh (lines 323 to 329), for layer \<open>l\<close>
  and the enumerated pair \<open>(k, (w1, w2))\<close>.
\<close>

fun rectangular_body ::
  "real list \<Rightarrow> real list \<Rightarrow> kwarg \<Rightarrow> nat \<Rightarrow> nat \<times> int \<times> int \<Rightarrow> state \<Rightarrow> state result"
where
  "rectangular_body theta phi beamsplitter l (k, w1, w2) (n, q) =
     (if (l + k) mod 2 \<noteq> 1 then
        (if beamsplitter = Str ''clements'' then
           (case getitem phi (int n) of
              Inl e \<Rightarrow> Inl (e, q)
            | Inr p \<Rightarrow>
                (case getitem theta (int n) of
                   Inl e \<Rightarrow> Inl (e, q @ [Rotation p w1])
                 | Inr t \<Rightarrow> Inr (n + 1, q @ [Rotation p w1, Beamsplitter t 0 w1 w2])))
         else
           (case getitem theta (int n) of
              Inl e \<Rightarrow> Inl (e, q)
            | Inr t \<Rightarrow>
                (case getitem phi (int n) of
                   Inl e \<Rightarrow> Inl (e, q)
                 | Inr p \<Rightarrow> Inr (n + 1, q @ [Beamsplitter t p w1 w2]))))
      else Inr (n, q))"

definition rectangular_mesh ::
  "real list \<Rightarrow> real list \<Rightarrow> kwarg \<Rightarrow> int list \<Rightarrow> state \<Rightarrow> state result"
where
  "rectangular_mesh theta phi beamsplitter w s =
     for_each [0..<length w]
       (\<lambda>l. for_each (enumerate 0 (zip (butlast w) (tl w)))
               (rectangular_body theta phi beamsplitter l)) s"

text \<open>
  The body of the inner loop of the triangular mesh (lines 336 to 341), for the pair
  index \<open>k\<close>; here the wires are read from \<open>w\<close> by index.
\<close>

fun triangular_body ::
  "real list \<Rightarrow> real list \<Rightarrow> kwarg \<Rightarrow> int list \<Rightarrow> int \<Rightarrow> state \<Rightarrow> state result"
where
  "triangular_body theta phi beamsplitter w k (n, q) =
     (if beamsplitter = Str ''clements'' then
        (case getitem phi (int n) of
           Inl e \<Rightarrow> Inl (e, q)
         | Inr p \<Rightarrow>
             (case getitem w k of
                Inl e \<Rightarrow> Inl (e, q)
              | Inr w1 \<Rightarrow>
                  (case getitem theta (int n) of
                     Inl e \<Rightarrow> Inl (e, q @ [Rotation p w1])
                   | Inr t \<Rightarrow>
                       (case getitem w k of
                          Inl e \<Rightarrow> Inl (e, q @ [Rotation p w1])
                        | Inr w1' \<Rightarrow>
                            (case getitem w (k + 1) of
                               Inl e \<Rightarrow> Inl (e, q @ [Rotation p w1])
                             | Inr w2 \<Rightarrow>
                                 Inr (n + 1,
                                      q @ [Rotation p w1, Beamsplitter t 0 w1' w2]))))))
      else
        (case getitem theta (int n) of
           Inl e \<Rightarrow> Inl (e, q)
         | Inr t \<Rightarrow>
             (case getitem phi (int n) of
                Inl e \<Rightarrow> Inl (e, q)
              | Inr p \<Rightarrow>
                  (case getitem w k of
                     Inl e \<Rightarrow> Inl (e, q)
                   | Inr w1 \<Rightarrow>
                       (case getitem w (k + 1) of
                          Inl e \<Rightarrow> Inl (e, q)
                        | Inr w2 \<Rightarrow> Inr (n + 1, q @ [Beamsplitter t p w1 w2]))))))"

definition triangular_mesh ::
  "real list \<Rightarrow> real list \<Rightarrow> kwarg \<Rightarrow> int list \<Rightarrow> state \<Rightarrow> state result"
where
  "triangular_mesh theta phi beamsplitter w s =
     (let N = int (length w) in
      for_each (range1 (2 * N - 3))
        (\<lambda>l. for_each (range3 (abs (l + 1 - (N - 1))) (N - 1) 2)
                (triangular_body theta phi beamsplitter w)) s)"

text \<open>The final loop (lines 344 and 345).\<close>

fun final_body :: "int list \<Rightarrow> nat \<times> real \<Rightarrow> operation list \<Rightarrow> operation list result" where
  "final_body w (i, p) q =
     (case getitem w (int i) of
        Inl e \<Rightarrow> Inl (e, q)
      | Inr wi \<Rightarrow> Inr (q @ [Rotation p wi]))"

definition Interferometer ::
  "real list \<Rightarrow> real list \<Rightarrow> real list \<Rightarrow> wires_arg \<Rightarrow> kwarg \<Rightarrow> kwarg \<Rightarrow> operation list result"
where
  "Interferometer theta phi varphi wires mesh beamsplitter =
     (if is_VarArg beamsplitter then
        Inl (QuantumFunctionError
          ''The beamsplitter parameter influences the circuit architecture and can not be passed as a QNode parameter.'', [])
      else if is_VarArg mesh then
        Inl (QuantumFunctionError
          ''The mesh parameter influences the circuit architecture and can not be passed as a QNode parameter.'', [])
      else
        (let w = (case wires of Wire x \<Rightarrow> [x] | Wires xs \<Rightarrow> xs);
             N = length w
         in
           if N = 1 then
             (case getitem varphi 0 of
                Inl e \<Rightarrow> Inl (e, [])
              | Inr p \<Rightarrow>
                  (case getitem w 0 of
                     Inl e \<Rightarrow> Inl (e, [])
                   | Inr w0 \<Rightarrow> Inr [Rotation p w0]))
           else
             (case
                (if mesh = Str ''rectangular'' then
                   rectangular_mesh theta phi beamsplitter w (0, [])
                 else if mesh = Str ''triangular'' then
                   triangular_mesh theta phi beamsplitter w (0, [])
                 else Inr (0, []))
              of
                Inl e \<Rightarrow> Inl e
              | Inr (n, q) \<Rightarrow> for_each (enumerate 0 varphi) (final_body w) q)))"

section \<open>Notions used to state the properties\<close>

subsection \<open>The schedules of the two meshes, in the words of the specification\<close>

text \<open>
  A schedule is the list of the selected (layer, pair index) entries in scan order.
  Rectangular: for layer \<open>l = 0 \<dots> N - 1\<close>, for pair index \<open>k = 0 \<dots> N - 2\<close>, the pair is
  included iff \<open>(l + k) mod 2 \<noteq> 1\<close>.
  Triangular: for layer \<open>l = 0 \<dots> 2N - 4\<close>, the pair indices are those reached from
  \<open>|l + 1 - (N - 1)|\<close> in steps of two that stay below \<open>N - 1\<close>.
\<close>

definition rectangular_layer :: "nat \<Rightarrow> nat \<Rightarrow> nat list" where
  "rectangular_layer N l = [k \<leftarrow> [0..<N - 1]. (l + k) mod 2 \<noteq> 1]"

definition rectangular_schedule :: "nat \<Rightarrow> (nat \<times> nat) list" where
  "rectangular_schedule N = concat (map (\<lambda>l. map (Pair l) (rectangular_layer N l)) [0..<N])"

definition triangular_start :: "nat \<Rightarrow> nat \<Rightarrow> nat" where
  "triangular_start N l = nat \<bar>int l + 1 - (int N - 1)\<bar>"

definition triangular_layer :: "nat \<Rightarrow> nat \<Rightarrow> nat list" where
  "triangular_layer N l =
     [k \<leftarrow> [triangular_start N l..<N - 1]. even (k - triangular_start N l)]"

definition triangular_schedule :: "nat \<Rightarrow> (nat \<times> nat) list" where
  "triangular_schedule N =
     concat (map (\<lambda>l. map (Pair l) (triangular_layer N l)) [0..<2 * N - 3])"

definition mesh_schedule :: "kwarg \<Rightarrow> nat \<Rightarrow> (nat \<times> nat) list" where
  "mesh_schedule mesh N =
     (if mesh = Str ''rectangular'' then rectangular_schedule N
      else if mesh = Str ''triangular'' then triangular_schedule N
      else [])"

text \<open>
  What the pair of index \<open>k\<close> contributes to the queue when it takes the parameter slot
  \<open>n\<close>, under either convention; and the contributions of a list of pair indices that
  take the slots \<open>n\<close>, \<open>n + 1\<close>, \<dots> in turn.
\<close>

definition coupling_ops ::
  "kwarg \<Rightarrow> real list \<Rightarrow> real list \<Rightarrow> int list \<Rightarrow> nat \<Rightarrow> nat \<Rightarrow> operation list"
where
  "coupling_ops beamsplitter theta phi w n k =
     (if beamsplitter = Str ''clements''
      then [Rotation (phi ! n) (w ! k), Beamsplitter (theta ! n) 0 (w ! k) (w ! Suc k)]
      else [Beamsplitter (theta ! n) (phi ! n) (w ! k) (w ! Suc k)])"

fun emit :: "(nat \<Rightarrow> 'a \<Rightarrow> operation list) \<Rightarrow> nat \<Rightarrow> 'a list \<Rightarrow> operation list" where
  "emit ops n [] = []"
| "emit ops n (x # xs) = ops n x @ emit ops (Suc n) xs"

text \<open>
  The queue that a schedule produces: entry \<open>i\<close> of the schedule takes the slot \<open>i\<close>.
\<close>

definition schedule_ops ::
  "kwarg \<Rightarrow> real list \<Rightarrow> real list \<Rightarrow> int list \<Rightarrow> (nat \<times> nat) list \<Rightarrow> operation list"
where
  "schedule_ops beamsplitter theta phi w sched =
     concat (map (\<lambda>i. coupling_ops beamsplitter theta phi w i (snd (sched ! i)))
               [0..<length sched])"

text \<open>The scan order of (layer, pair index) entries: by layer, then by pair index.\<close>

definition scan_before :: "nat \<times> nat \<Rightarrow> nat \<times> nat \<Rightarrow> bool" where
  "scan_before a b = (fst a < fst b \<or> (fst a = fst b \<and> snd a < snd b))"

text \<open>The rotations of the final loop.\<close>

definition final_rotations :: "int list \<Rightarrow> real list \<Rightarrow> operation list" where
  "final_rotations w varphi = map (\<lambda>i. Rotation (varphi ! i) (w ! i)) [0..<length varphi]"

subsection \<open>Leaves of a model\<close>

text \<open>
  The number of leaves, counted by recursion on the structure; a leaf is anything that
  is not a list, a tuple or an array.
\<close>

fun leaf_count :: "pyval \<Rightarrow> nat" where
  "leaf_count (PyList xs) = sum_list (map leaf_count xs)"
| "leaf_count (PyTuple xs) = sum_list (map leaf_count xs)"
| "leaf_count (NdArray d xs) = sum_list (map leaf_count xs)"
| "leaf_count (NdArray0 d v) = leaf_count v"
| "leaf_count x = 1"

fun is_leaf :: "pyval \<Rightarrow> bool" where
  "is_leaf (Num r) = True"
| "is_leaf (Var i) = True"
| "is_leaf x = False"

fun is_Num :: "pyval \<Rightarrow> bool" where
  "is_Num (Num r) = True"
| "is_Num x = False"


text \<open>
  A model is \<open>regular\<close> when its leaves are numbers and \<^verbatim>\<open>Variable\<close>s, its arrays of
  shape \<^verbatim>\<open>()\<close> hold one of these, and none of its arrays of rank at least one has
  length zero.
\<close>

fun regular :: "pyval \<Rightarrow> bool" where
  "regular (Num r) = True"
| "regular (Var i) = True"
| "regular (PyObj t) = False"
| "regular (PyList xs) = list_all regular xs"
| "regular (PyTuple xs) = list_all regular xs"
| "regular (NdArray0 d v) = is_leaf v"
| "regular (NdArray d xs) = (xs \<noteq> [] \<and> list_all regular xs)"

text \<open>
  The dtypes of the arrays of a model; an element \<open>x\<close> of a flat sequence is \<open>kept_by\<close> a
  model when it is a leaf that the conversion to each of these dtypes leaves as it is.
\<close>

fun dtypes :: "pyval \<Rightarrow> dtype list" where
  "dtypes (NdArray0 d v) = d # dtypes v"
| "dtypes (NdArray d xs) = d # concat (map dtypes xs)"
| "dtypes (PyList xs) = concat (map dtypes xs)"
| "dtypes (PyTuple xs) = concat (map dtypes xs)"
| "dtypes x = []"

definition kept_by :: "pyval \<Rightarrow> pyval \<Rightarrow> bool" where
  "kept_by M x = (is_leaf x \<and> list_all (\<lambda>d. np_item d x = Inr x) (dtypes M))"

text \<open>
  What numpy can hold in an array of dtype \<open>d\<close>: the leaves that the conversion to \<open>d\<close>
  leaves as they are (any number under \<^verbatim>\<open>float64\<close>, \<^verbatim>\<open>complex128\<close> and \<^verbatim>\<open>object\<close>, an
  integer of 64 bits under \<^verbatim>\<open>int64\<close>, a \<^verbatim>\<open>Variable\<close> under \<^verbatim>\<open>object\<close> only), and
  non-empty sub-arrays of the same dtype that hold such items.
\<close>

fun stored :: "dtype \<Rightarrow> pyval \<Rightarrow> bool" where
  "stored d (Num r) = (np_cast d r = Inr (Num r))"
| "stored d (Var i) = (d = Object)"
| "stored d (NdArray d' xs) = (d' = d \<and> xs \<noteq> [] \<and> list_all (stored d) xs)"
| "stored d x = False"

text \<open>
  A model is \<open>restorable\<close> when its leaves are numbers and \<^verbatim>\<open>Variable\<close>s, none of its
  lists is empty, and its arrays are arrays that numpy can hold: non-empty, with stored
  items, or of shape \<^verbatim>\<open>()\<close> with a stored leaf.
\<close>

fun restorable :: "pyval \<Rightarrow> bool" where
  "restorable (Num r) = True"
| "restorable (Var i) = True"
| "restorable (PyObj t) = False"
| "restorable (PyList xs) = (xs \<noteq> [] \<and> list_all restorable xs)"
| "restorable (PyTuple xs) = list_all restorable xs"
| "restorable (NdArray0 d v) = (is_leaf v \<and> stored d v)"
| "restorable (NdArray d xs) = (xs \<noteq> [] \<and> list_all (stored d) xs)"

section \<open>Loops that fill the queue\<close>

lemma emit_append: "emit ops n (xs @ ys) = emit ops n xs @ emit ops (n + length xs) ys"
  by (induction xs arbitrary: n) auto

lemma emit_concat_map:
  "emit ops n xs = concat (map (\<lambda>i. ops (n + i) (xs ! i)) [0..<length xs])"
proof (induction xs arbitrary: n)
  case Nil
  show ?case by simp
next
  case (Cons x xs)
  have "[0..<length (x # xs)] = 0 # map Suc [0..<length xs]"
    by (simp add: upt_conv_Cons map_Suc_upt del: upt_Suc)
  then show ?case
    by (simp add: Cons.IH comp_def del: upt_Suc)
qed

lemma for_each_map: "for_each (map f xs) body s = for_each xs (\<lambda>x. body (f x)) s"
  by (induction xs arbitrary: s) (auto split: sum.splits)

lemma for_each_emit:
  assumes sel: "\<And>x n q. x \<in> set xs \<Longrightarrow> sel x \<Longrightarrow> n < L \<Longrightarrow> body x (n, q) = Inr (Suc n, q @ ops n x)"
    and skip: "\<And>x s. x \<in> set xs \<Longrightarrow> \<not> sel x \<Longrightarrow> body x s = Inr s"
    and len: "n + length (filter sel xs) \<le> L"
  shows "for_each xs body (n, q) = Inr (n + length (filter sel xs), q @ emit ops n (filter sel xs))"
  using assms
proof (induction xs arbitrary: n q)
  case Nil
  show ?case by simp
next
  case (Cons x xs)
  show ?case
  proof (cases "sel x")
    case True
    with Cons.prems(3) have n: "n < L" and len': "Suc n + length (filter sel xs) \<le> L" by auto
    have step: "body x (n, q) = Inr (Suc n, q @ ops n x)"
      using Cons.prems(1) True n by simp
    have "for_each xs body (Suc n, q @ ops n x)
          = Inr (Suc n + length (filter sel xs), (q @ ops n x) @ emit ops (Suc n) (filter sel xs))"
      by (rule Cons.IH) (use Cons.prems len' in auto)
    with step True show ?thesis by simp
  next
    case False
    have step: "body x (n, q) = Inr (n, q)"
      using Cons.prems(2) False by simp
    have "for_each xs body (n, q)
          = Inr (n + length (filter sel xs), q @ emit ops n (filter sel xs))"
      by (rule Cons.IH) (use Cons.prems False in auto)
    with step False show ?thesis by simp
  qed
qed

lemma for_each_layers:
  assumes inner: "\<And>l n q. l \<in> set ls \<Longrightarrow> n + length (layer l) \<le> L \<Longrightarrow>
             inner l (n, q) = Inr (n + length (layer l), q @ emit ops n (layer l))"
    and len: "n + length (concat (map layer ls)) \<le> L"
  shows "for_each ls inner (n, q)
         = Inr (n + length (concat (map layer ls)), q @ emit ops n (concat (map layer ls)))"
  using assms
proof (induction ls arbitrary: n q)
  case Nil
  show ?case by simp
next
  case (Cons l ls)
  from Cons.prems(2) have l1: "n + length (layer l) \<le> L"
    and l2: "(n + length (layer l)) + length (concat (map layer ls)) \<le> L" by auto
  have step: "inner l (n, q) = Inr (n + length (layer l), q @ emit ops n (layer l))"
    using Cons.prems(1) l1 by simp
  have "for_each ls inner (n + length (layer l), q @ emit ops n (layer l))
        = Inr ((n + length (layer l)) + length (concat (map layer ls)),
               (q @ emit ops n (layer l)) @ emit ops (n + length (layer l)) (concat (map layer ls)))"
    by (rule Cons.IH) (use Cons.prems l2 in auto)
  with step show ?case by (simp add: emit_append add.assoc)
qed

lemma getitem_nat: "n < length xs \<Longrightarrow> getitem xs (int n) = Inr (xs ! n)"
  by (simp add: getitem_def)

lemma getitem_nat_Suc: "Suc n < length xs \<Longrightarrow> getitem xs (int n + 1) = Inr (xs ! Suc n)"
  using getitem_nat [of "Suc n" xs] by (simp add: add.commute)

subsection \<open>The loops of the rectangular mesh\<close>

lemma enumerate_pairs:
  "enumerate 0 (zip (butlast w) (tl w)) = map (\<lambda>k. (k, w ! k, w ! Suc k)) [0..<length w - 1]"
  by (rule nth_equalityI) (simp_all add: nth_enumerate_eq nth_butlast nth_tl)

lemma rectangular_body_selected:
  assumes "(l + k) mod 2 \<noteq> 1" "n < length theta" "n < length phi"
  shows "rectangular_body theta phi bs l (k, w ! k, w ! Suc k) (n, q)
         = Inr (Suc n, q @ coupling_ops bs theta phi w n k)"
  using assms by (simp add: getitem_nat coupling_ops_def)

lemma rectangular_body_skipped:
  assumes "\<not> (l + k) mod 2 \<noteq> 1"
  shows "rectangular_body theta phi bs l (k, w1, w2) s = Inr s"
  using assms by (cases s) simp

lemma rectangular_inner:
  assumes "n + length (rectangular_layer (length w) l) \<le> min (length theta) (length phi)"
  shows "for_each (enumerate 0 (zip (butlast w) (tl w))) (rectangular_body theta phi bs l) (n, q)
         = Inr (n + length (rectangular_layer (length w) l),
                q @ emit (coupling_ops bs theta phi w) n (rectangular_layer (length w) l))"
  unfolding enumerate_pairs for_each_map rectangular_layer_def
proof (rule for_each_emit [where L = "min (length theta) (length phi)"])
  fix k n q
  assume "(l + k) mod 2 \<noteq> 1" "n < min (length theta) (length phi)"
  then show "rectangular_body theta phi bs l (k, w ! k, w ! Suc k) (n, q)
             = Inr (Suc n, q @ coupling_ops bs theta phi w n k)"
    by (intro rectangular_body_selected) simp_all
next
  fix k s
  assume "\<not> (l + k) mod 2 \<noteq> 1"
  then show "rectangular_body theta phi bs l (k, w ! k, w ! Suc k) s = Inr s"
    by (rule rectangular_body_skipped)
next
  show "n + length [k \<leftarrow> [0..<length w - 1]. (l + k) mod 2 \<noteq> 1] \<le> min (length theta) (length phi)"
    using assms by (simp only: rectangular_layer_def)
qed

lemma rectangular_mesh_run:
  assumes "n + length (rectangular_schedule (length w)) \<le> min (length theta) (length phi)"
  shows "rectangular_mesh theta phi bs w (n, q)
         = Inr (n + length (rectangular_schedule (length w)),
                q @ emit (coupling_ops bs theta phi w) n (map snd (rectangular_schedule (length w))))"
proof -
  have snd: "map snd (rectangular_schedule (length w))
             = concat (map (rectangular_layer (length w)) [0..<length w])"
    by (simp add: rectangular_schedule_def map_concat comp_def)
  have len: "length (rectangular_schedule (length w))
             = length (concat (map (rectangular_layer (length w)) [0..<length w]))"
    using arg_cong [OF snd, of length] by simp
  show ?thesis
    unfolding rectangular_mesh_def snd len
  proof (rule for_each_layers [where L = "min (length theta) (length phi)"])
    fix l n q
    assume "n + length (rectangular_layer (length w) l) \<le> min (length theta) (length phi)"
    then show "for_each (enumerate 0 (zip (butlast w) (tl w))) (rectangular_body theta phi bs l) (n, q)
               = Inr (n + length (rectangular_layer (length w) l),
                      q @ emit (coupling_ops bs theta phi w) n (rectangular_layer (length w) l))"
      by (rule rectangular_inner)
  next
    show "n + length (concat (map (rectangular_layer (length w)) [0..<length w]))
          \<le> min (length theta) (length phi)"
      using assms len by simp
  qed
qed

subsection \<open>The loops of the triangular mesh\<close>

lemma filter_even_offset:
  "[k \<leftarrow> [s..<m]. even (k - s)] = map (\<lambda>i. s + 2 * i) [0..<(m - s + 1) div 2]"
proof (induction m)
  case 0
  show ?case by simp
next
  case (Suc m)
  show ?case
  proof (cases "s \<le> m")
    case False
    then show ?thesis by simp
  next
    case le: True
    show ?thesis
    proof (cases "even (m - s)")
      case True
      then obtain j where j: "m - s = 2 * j" by (blast elim: evenE)
      with le have m: "m = s + 2 * j" by simp
      have "(Suc m - s + 1) div 2 = Suc j" "(m - s + 1) div 2 = j"
        using m by simp_all
      with Suc.IH le True m show ?thesis by simp
    next
      case False
      then obtain j where j: "m - s = 2 * j + 1" by (blast elim: oddE)
      have "(Suc m - s + 1) div 2 = Suc j" "(m - s + 1) div 2 = Suc j"
        using j le by simp_all
      with Suc.IH le False show ?thesis by simp
    qed
  qed
qed

lemma range1_layers: "range1 (2 * int N - 3) = map int [0..<2 * N - 3]"
proof -
  have "nat (2 * int N - 3) = 2 * N - 3" by simp
  then show ?thesis by (simp add: range1_def)
qed

lemma range3_layer:
  "range3 \<bar>int l + 1 - (int N - 1)\<bar> (int N - 1) 2 = map int (triangular_layer N l)"
proof -
  define s where "s = triangular_start N l"
  have a: "\<bar>int l + 1 - (int N - 1)\<bar> = int s"
    by (simp add: s_def triangular_start_def)
  have cnt: "nat ((int N - 1 - int s + 2 - 1) div 2) = (N - 1 - s + 1) div 2"
    by (cases "s \<le> N - 1") (auto simp: nat_div_distrib nat_diff_distrib nat_add_distrib)
  have "range3 (int s) (int N - 1) 2 = map (\<lambda>i. int s + 2 * int i) [0..<(N - 1 - s + 1) div 2]"
    by (simp only: range3_def cnt)
  also have "\<dots> = map int (map (\<lambda>i. s + 2 * i) [0..<(N - 1 - s + 1) div 2])"
    by simp
  also have "\<dots> = map int (triangular_layer N l)"
    by (simp only: triangular_layer_def filter_even_offset s_def)
  finally show ?thesis by (simp only: a)
qed

lemma triangular_layer_bound: "k \<in> set (triangular_layer N l) \<Longrightarrow> Suc k < N"
  by (auto simp: triangular_layer_def)

lemma rectangular_layer_bound: "k \<in> set (rectangular_layer N l) \<Longrightarrow> Suc k < N"
  by (auto simp: rectangular_layer_def)

lemma triangular_body_run:
  assumes "n < length theta" "n < length phi" "Suc k < length w"
  shows "triangular_body theta phi bs w (int k) (n, q)
         = Inr (Suc n, q @ coupling_ops bs theta phi w n k)"
  using assms by (simp add: getitem_nat getitem_nat_Suc coupling_ops_def)

lemma triangular_inner:
  assumes "n + length (triangular_layer (length w) l) \<le> min (length theta) (length phi)"
  shows "for_each (range3 \<bar>int l + 1 - (int (length w) - 1)\<bar> (int (length w) - 1) 2)
           (triangular_body theta phi bs w) (n, q)
         = Inr (n + length (triangular_layer (length w) l),
                q @ emit (coupling_ops bs theta phi w) n (triangular_layer (length w) l))"
proof -
  have "for_each (triangular_layer (length w) l) (\<lambda>k. triangular_body theta phi bs w (int k)) (n, q)
        = Inr (n + length (filter (\<lambda>k. True) (triangular_layer (length w) l)),
               q @ emit (coupling_ops bs theta phi w) n (filter (\<lambda>k. True) (triangular_layer (length w) l)))"
  proof (rule for_each_emit [where L = "min (length theta) (length phi)"])
    fix k n q
    assume "k \<in> set (triangular_layer (length w) l)" "n < min (length theta) (length phi)"
    then show "triangular_body theta phi bs w (int k) (n, q)
               = Inr (Suc n, q @ coupling_ops bs theta phi w n k)"
      by (intro triangular_body_run) (simp_all add: triangular_layer_bound)
  next
    fix k :: nat and s :: state
    assume "\<not> True"
    then show "triangular_body theta phi bs w (int k) s = Inr s" by simp
  next
    show "n + length (filter (\<lambda>k. True) (triangular_layer (length w) l))
          \<le> min (length theta) (length phi)"
      using assms by simp
  qed
  then have "for_each (triangular_layer (length w) l) (\<lambda>k. triangular_body theta phi bs w (int k)) (n, q)
        = Inr (n + length (triangular_layer (length w) l),
               q @ emit (coupling_ops bs theta phi w) n (triangular_layer (length w) l))"
    by simp
  then show ?thesis
    by (simp only: range3_layer for_each_map)
qed

lemma triangular_mesh_run:
  assumes "n + length (triangular_schedule (length w)) \<le> min (length theta) (length phi)"
  shows "triangular_mesh theta phi bs w (n, q)
         = Inr (n + length (triangular_schedule (length w)),
                q @ emit (coupling_ops bs theta phi w) n (map snd (triangular_schedule (length w))))"
proof -
  have snd: "map snd (triangular_schedule (length w))
             = concat (map (triangular_layer (length w)) [0..<2 * length w - 3])"
    by (simp add: triangular_schedule_def map_concat comp_def)
  have len: "length (triangular_schedule (length w))
             = length (concat (map (triangular_layer (length w)) [0..<2 * length w - 3]))"
    using arg_cong [OF snd, of length] by simp
  have "for_each [0..<2 * length w - 3]
          (\<lambda>l. for_each (range3 \<bar>int l + 1 - (int (length w) - 1)\<bar> (int (length w) - 1) 2)
                  (triangular_body theta phi bs w)) (n, q)
        = Inr (n + length (concat (map (triangular_layer (length w)) [0..<2 * length w - 3])),
               q @ emit (coupling_ops bs theta phi w) n
                     (concat (map (triangular_layer (length w)) [0..<2 * length w - 3])))"
  proof (rule for_each_layers [where L = "min (length theta) (length phi)"])
    fix l n q
    assume "n + length (triangular_layer (length w) l) \<le> min (length theta) (length phi)"
    then show "for_each (range3 \<bar>int l + 1 - (int (length w) - 1)\<bar> (int (length w) - 1) 2)
                 (triangular_body theta phi bs w) (n, q)
               = Inr (n + length (triangular_layer (length w) l),
                      q @ emit (coupling_ops bs theta phi w) n (triangular_layer (length w) l))"
      by (rule triangular_inner)
  next
    show "n + length (concat (map (triangular_layer (length w)) [0..<2 * length w - 3]))
          \<le> min (length theta) (length phi)"
      using assms len by simp
  qed
  then show ?thesis
    by (simp only: triangular_mesh_def Let_def range1_layers for_each_map snd len)
qed

section \<open>The number of entries of a schedule\<close>

lemma length_parity_filter:
  "length [k \<leftarrow> [0..<m]. (l + k) mod 2 \<noteq> 1] = (if even l then (m + 1) div 2 else m div 2)"
proof (induction m)
  case 0
  show ?case by simp
next
  case (Suc m)
  have "((l + m) mod 2 \<noteq> 1) = (even l = even m)"
    by presburger
  with Suc.IH show ?case
    by (cases "even l"; cases "even m") (auto elim!: evenE oddE)
qed

lemma length_rectangular_layer:
  "length (rectangular_layer N l) = (if even l then N div 2 else (N - 1) div 2)"
  unfolding rectangular_layer_def length_parity_filter by (cases N) simp_all

lemma sum_list_parity:
  "sum_list (map (\<lambda>l. if even l then a else b) [0..<n]) = ((n + 1) div 2) * a + (n div 2) * (b::nat)"
proof (induction n)
  case 0
  show ?case by simp
next
  case (Suc n)
  show ?case
  proof (cases "even n")
    case True
    then obtain j where "n = 2 * j" by (blast elim: evenE)
    with Suc.IH show ?thesis by simp
  next
    case False
    then obtain j where "n = 2 * j + 1" by (blast elim: oddE)
    with Suc.IH show ?thesis by simp
  qed
qed

lemma length_rectangular_schedule: "length (rectangular_schedule N) = N * (N - 1) div 2"
proof -
  have "length (rectangular_schedule N)
        = sum_list (map (\<lambda>l. if even l then N div 2 else (N - 1) div 2) [0..<N])"
    by (simp add: rectangular_schedule_def length_concat comp_def length_rectangular_layer)
  also have "\<dots> = ((N + 1) div 2) * (N div 2) + (N div 2) * ((N - 1) div 2)"
    by (rule sum_list_parity)
  also have "\<dots> = N * (N - 1) div 2"
  proof (cases "even N")
    case True
    then obtain j where "N = 2 * j" by (blast elim: evenE)
    then show ?thesis by (cases j) (simp_all add: algebra_simps)
  next
    case False
    then obtain j where "N = 2 * j + 1" by (blast elim: oddE)
    then show ?thesis by (simp add: algebra_simps)
  qed
  finally show ?thesis .
qed

lemma length_triangular_layer:
  "length (triangular_layer N l) = (N - 1 - triangular_start N l + 1) div 2"
  by (simp only: triangular_layer_def filter_even_offset length_map length_upt diff_zero)

lemma half_sum: "(\<Sum>j<m. (j + 2) div 2) * 2 + (m + 2) div 2 = (m + 2) * (m + 1) div (2::nat)"
proof (induction m)
  case 0
  show ?case by simp
next
  case (Suc m)
  have pair: "(m + 2) div 2 + (m + 3) div 2 = m + 2"
    by presburger
  have "(\<Sum>j<Suc m. (j + 2) div 2) * 2 + (Suc m + 2) div 2
        = ((\<Sum>j<m. (j + 2) div 2) * 2 + (m + 2) div 2) + ((m + 2) div 2 + (m + 3) div 2)"
    by (simp add: algebra_simps)
  also have "\<dots> = (m + 2) * (m + 1) div 2 + (m + 2)"
    by (simp only: Suc.IH pair)
  also have "\<dots> = ((m + 2) * (m + 1) + 2 * (m + 2)) div 2"
    by simp
  also have "(m + 2) * (m + 1) + 2 * (m + 2) = (Suc m + 2) * (Suc m + 1)"
    by (simp add: algebra_simps)
  finally show ?case .
qed

lemma triangular_sum:
  "(\<Sum>l = 0..<2 * m + 1. (m + 2 - nat \<bar>int l - int m\<bar>) div 2) = (m + 2) * (m + 1) div 2"
proof -
  let ?g = "\<lambda>l. (m + 2 - nat \<bar>int l - int m\<bar>) div 2"
  have split: "sum ?g {0..<2 * m + 1} = sum ?g {0..<m} + sum ?g {m..<2 * m + 1}"
    by (rule sum.atLeastLessThan_concat [symmetric]) simp_all
  have left: "sum ?g {0..<m} = (\<Sum>j<m. (j + 2) div 2)"
  proof -
    have "sum ?g {0..<m} = sum (\<lambda>j. (j + 2) div 2) {0..<m}"
    proof (rule sum.cong)
      fix l assume "l \<in> {0..<m}"
      then have "nat \<bar>int l - int m\<bar> = m - l" by auto
      with \<open>l \<in> {0..<m}\<close> show "?g l = (l + 2) div 2" by simp
    qed simp
    then show ?thesis by (simp add: lessThan_atLeast0)
  qed
  have right: "sum ?g {m..<2 * m + 1} = (\<Sum>j<Suc m. (j + 2) div 2)"
  proof -
    have "sum ?g {m..<2 * m + 1} = sum ?g {0 + m..<Suc m + m}"
      by (rule arg_cong [where f = "sum ?g"]) auto
    also have "\<dots> = sum (\<lambda>i. ?g (i + m)) {0..<Suc m}"
      by (rule sum.shift_bounds_nat_ivl)
    also have "\<dots> = sum (\<lambda>i. (m - i + 2) div 2) {0..<Suc m}"
    proof (rule sum.cong)
      fix i assume "i \<in> {0..<Suc m}"
      then show "?g (i + m) = (m - i + 2) div 2" by auto
    qed simp
    also have "\<dots> = (\<Sum>i<Suc m. (Suc m - Suc i + 2) div 2)"
      by (simp add: lessThan_atLeast0)
    also have "\<dots> = (\<Sum>j<Suc m. (j + 2) div 2)"
      by (rule sum.nat_diff_reindex)
    finally show ?thesis .
  qed
  have "sum ?g {0..<2 * m + 1} = (\<Sum>j<m. (j + 2) div 2) + (\<Sum>j<Suc m. (j + 2) div 2)"
    by (simp only: split left right)
  also have "\<dots> = (\<Sum>j<m. (j + 2) div 2) * 2 + (m + 2) div 2"
    by simp
  finally show ?thesis by (simp only: half_sum)
qed

lemma length_triangular_schedule: "length (triangular_schedule N) = N * (N - 1) div 2"
proof (cases "N < 2")
  case True
  then have "N = 0 \<or> N = 1" by auto
  then show ?thesis by (auto simp: triangular_schedule_def)
next
  case False
  then obtain m where N: "N = m + 2"
    by (metis add.commute le_Suc_ex not_less)
  have layers: "2 * N - 3 = 2 * m + 1" using N by simp
  have "length (triangular_schedule N)
        = sum_list (map (\<lambda>l. length (triangular_layer N l)) [0..<2 * m + 1])"
    by (simp add: triangular_schedule_def length_concat comp_def layers)
  also have "\<dots> = (\<Sum>l = 0..<2 * m + 1. length (triangular_layer N l))"
    by (simp add: interv_sum_list_conv_sum_set_nat)
  also have "\<dots> = (\<Sum>l = 0..<2 * m + 1. (m + 2 - nat \<bar>int l - int m\<bar>) div 2)"
  proof (rule sum.cong)
    fix l assume l: "l \<in> {0..<2 * m + 1}"
    have start: "triangular_start N l = nat \<bar>int l - int m\<bar>"
      by (simp add: triangular_start_def N)
    from l have "nat \<bar>int l - int m\<bar> \<le> m" by auto
    then have "N - 1 - nat \<bar>int l - int m\<bar> + 1 = m + 2 - nat \<bar>int l - int m\<bar>"
      using N by simp
    then show "length (triangular_layer N l) = (m + 2 - nat \<bar>int l - int m\<bar>) div 2"
      by (simp only: length_triangular_layer start)
  qed simp
  also have "\<dots> = (m + 2) * (m + 1) div 2"
    by (rule triangular_sum)
  finally show ?thesis by (simp add: N)
qed

section \<open>The template as a whole\<close>

lemma final_loop_from:
  "i + length vs \<le> length w \<Longrightarrow>
   for_each (enumerate i vs) (final_body w) q
   = Inr (q @ map (\<lambda>j. Rotation (vs ! j) (w ! (i + j))) [0..<length vs])"
proof (induction vs arbitrary: i q)
  case Nil
  show ?case by simp
next
  case (Cons p vs)
  have upt: "[0..<Suc (length vs)] = 0 # map Suc [0..<length vs]"
    by (simp add: upt_conv_Cons map_Suc_upt del: upt_Suc)
  from Cons.prems have i: "i < length w" and rest: "Suc i + length vs \<le> length w"
    by simp_all
  have "for_each (enumerate (Suc i) vs) (final_body w) (q @ [Rotation p (w ! i)])
        = Inr ((q @ [Rotation p (w ! i)])
                @ map (\<lambda>j. Rotation (vs ! j) (w ! (Suc i + j))) [0..<length vs])"
    using rest by (rule Cons.IH)
  with i show ?case
    by (simp add: getitem_nat upt comp_def del: upt_Suc)
qed

lemma final_loop:
  "length varphi \<le> length w \<Longrightarrow>
   for_each (enumerate 0 varphi) (final_body w) q = Inr (q @ final_rotations w varphi)"
  using final_loop_from [of 0 varphi w q] by (simp add: final_rotations_def)

lemma length_mesh_schedule:
  "mesh = Str ''rectangular'' \<or> mesh = Str ''triangular'' \<Longrightarrow>
   length (mesh_schedule mesh N) = N * (N - 1) div 2"
  by (auto simp: mesh_schedule_def length_rectangular_schedule length_triangular_schedule)

lemma mesh_schedule_bound:
  "(l, k) \<in> set (mesh_schedule mesh N) \<Longrightarrow> Suc k < N"
  by (auto simp: mesh_schedule_def rectangular_schedule_def triangular_schedule_def
        rectangular_layer_bound triangular_layer_bound split: if_splits)

lemma mesh_run:
  assumes "length (mesh_schedule mesh (length w)) \<le> length theta"
    and "length (mesh_schedule mesh (length w)) \<le> length phi"
  shows "(if mesh = Str ''rectangular'' then rectangular_mesh theta phi bs w (0, [])
          else if mesh = Str ''triangular'' then triangular_mesh theta phi bs w (0, [])
          else Inr (0, []))
         = Inr (length (mesh_schedule mesh (length w)),
                emit (coupling_ops bs theta phi w) 0 (map snd (mesh_schedule mesh (length w))))"
proof -
  consider (rect) "mesh = Str ''rectangular''"
    | (tri) "mesh \<noteq> Str ''rectangular''" "mesh = Str ''triangular''"
    | (none) "mesh \<noteq> Str ''rectangular''" "mesh \<noteq> Str ''triangular''"
    by blast
  then show ?thesis
  proof cases
    case rect
    then have s: "mesh_schedule mesh (length w) = rectangular_schedule (length w)"
      by (simp add: mesh_schedule_def)
    show ?thesis
      using assms rectangular_mesh_run [of 0 w theta phi bs "[]"] rect
      by (simp add: mesh_schedule_def)
  next
    case tri
    then have s: "mesh_schedule mesh (length w) = triangular_schedule (length w)"
      by (simp add: mesh_schedule_def)
    show ?thesis
      using assms triangular_mesh_run [of 0 w theta phi bs "[]"] tri
      by (simp add: mesh_schedule_def)
  next
    case none
    then show ?thesis by (simp add: mesh_schedule_def)
  qed
qed

lemma Interferometer_run:
  assumes "length w \<noteq> 1"
    and "\<not> is_VarArg mesh" and "\<not> is_VarArg bs"
    and "length (mesh_schedule mesh (length w)) \<le> length theta"
    and "length (mesh_schedule mesh (length w)) \<le> length phi"
    and "length varphi \<le> length w"
  shows "Interferometer theta phi varphi (Wires w) mesh bs
         = Inr (emit (coupling_ops bs theta phi w) 0 (map snd (mesh_schedule mesh (length w)))
                @ final_rotations w varphi)"
proof -
  have "Interferometer theta phi varphi (Wires w) mesh bs
        = (case (if mesh = Str ''rectangular'' then rectangular_mesh theta phi bs w (0, [])
                 else if mesh = Str ''triangular'' then triangular_mesh theta phi bs w (0, [])
                 else Inr (0, []))
           of Inl e \<Rightarrow> Inl e
            | Inr (n, q) \<Rightarrow> for_each (enumerate 0 varphi) (final_body w) q)"
    using assms(1-3) by (simp add: Interferometer_def)
  also have "\<dots> = for_each (enumerate 0 varphi) (final_body w)
                      (emit (coupling_ops bs theta phi w) 0 (map snd (mesh_schedule mesh (length w))))"
    by (simp only: mesh_run [OF assms(4,5)] sum.case prod.case)
  also have "\<dots> = Inr (emit (coupling_ops bs theta phi w) 0 (map snd (mesh_schedule mesh (length w)))
                @ final_rotations w varphi)"
    using assms(6) by (rule final_loop)
  finally show ?thesis .
qed

lemma emit_schedule:
  "emit ops 0 (map snd sched) = concat (map (\<lambda>i. ops i (snd (sched ! i))) [0..<length sched])"
proof -
  have eq: "map (\<lambda>i. ops (0 + i) (map snd sched ! i)) [0..<length (map snd sched)]
        = map (\<lambda>i. ops i (snd (sched ! i))) [0..<length sched]"
    by (rule map_cong) simp_all
  show ?thesis by (simp only: emit_concat_map eq)
qed

lemma filter_Beamsplitter_coupling_ops:
  "filter is_Beamsplitter (coupling_ops bs theta phi w n k)
   = [Beamsplitter (theta ! n) (if bs = Str ''clements'' then 0 else phi ! n) (w ! k) (w ! Suc k)]"
  by (simp add: coupling_ops_def)

lemma filter_Beamsplitter_final: "filter is_Beamsplitter (final_rotations w varphi) = []"
  by (simp add: final_rotations_def)

lemma filter_concat_map_singleton:
  "(\<And>x. x \<in> set xs \<Longrightarrow> filter P (f x) = [g x]) \<Longrightarrow> filter P (concat (map f xs)) = map g xs"
  by (induction xs) simp_all

lemma Interferometer_schedule:
  assumes "length w \<noteq> 1"
    and "\<not> is_VarArg mesh" and "\<not> is_VarArg bs"
    and "length (mesh_schedule mesh (length w)) \<le> length theta"
    and "length (mesh_schedule mesh (length w)) \<le> length phi"
    and "length varphi \<le> length w"
  shows "Interferometer theta phi varphi (Wires w) mesh bs
         = Inr (schedule_ops bs theta phi w (mesh_schedule mesh (length w))
                @ final_rotations w varphi)"
  using Interferometer_run [OF assms] by (simp only: emit_schedule schedule_ops_def)

lemma filter_Beamsplitter_schedule_ops:
  "filter is_Beamsplitter (schedule_ops bs theta phi w sched)
   = map (\<lambda>i. Beamsplitter (theta ! i) (if bs = Str ''clements'' then 0 else phi ! i)
                 (w ! snd (sched ! i)) (w ! Suc (snd (sched ! i)))) [0..<length sched]"
  unfolding schedule_ops_def
  by (rule filter_concat_map_singleton) (rule filter_Beamsplitter_coupling_ops)

section \<open>Order and membership of the schedules\<close>

lemma scan_order_layers:
  assumes "\<And>l. sorted_wrt (<) (layer l)"
  shows "sorted_wrt scan_before (concat (map (\<lambda>l. map (Pair l) (layer l)) [0..<n]))"
proof (induction n)
  case 0
  show ?case by simp
next
  case (Suc n)
  have last: "sorted_wrt scan_before (map (Pair n) (layer n))"
    using assms [of n] by (simp add: sorted_wrt_map scan_before_def)
  have cross: "\<forall>x\<in>set (concat (map (\<lambda>l. map (Pair l) (layer l)) [0..<n])).
               \<forall>y\<in>set (map (Pair n) (layer n)). scan_before x y"
    by (auto simp: scan_before_def)
  show ?case
    using Suc.IH last cross by (simp add: sorted_wrt_append)
qed

lemma sorted_rectangular_layer: "sorted_wrt (<) (rectangular_layer N l)"
  unfolding rectangular_layer_def by (rule sorted_wrt_filter) simp

lemma sorted_triangular_layer: "sorted_wrt (<) (triangular_layer N l)"
  unfolding triangular_layer_def by (rule sorted_wrt_filter) simp

lemma rectangular_layer_disjoint:
  "distinct (concat (map (\<lambda>k. [k, Suc k]) (rectangular_layer N l)))"
proof -
  have "distinct (concat (map (\<lambda>k. [k, Suc k]) [k \<leftarrow> [0..<m]. (l + k) mod 2 \<noteq> 1]))" for m
  proof (induction m)
    case 0
    show ?case by simp
  next
    case (Suc m)
    have bound: "\<forall>x \<in> set (concat (map (\<lambda>k. [k, Suc k]) [k \<leftarrow> [0..<m]. (l + k) mod 2 \<noteq> 1])).
                   x \<le> m \<and> (x = m \<longrightarrow> (l + m) mod 2 = 1)"
      by (auto simp: less_Suc_eq_le)
    show ?case
    proof (cases "(l + m) mod 2 \<noteq> 1")
      case True
      with bound Suc.IH show ?thesis by auto
    next
      case False
      with Suc.IH show ?thesis by simp
    qed
  qed
  then show ?thesis by (simp only: rectangular_layer_def)
qed

lemma layers_member:
  "(l, k) \<in> set (concat (map (\<lambda>l. map (Pair l) (layer l)) ls)) \<longleftrightarrow> l \<in> set ls \<and> k \<in> set (layer l)"
  by auto

lemma rectangular_schedule_member:
  "(l, k) \<in> set (rectangular_schedule N) \<longleftrightarrow> l < N \<and> k < N - 1 \<and> (l + k) mod 2 \<noteq> 1"
  unfolding rectangular_schedule_def layers_member
  by (simp add: rectangular_layer_def)

lemma triangular_schedule_member:
  "(l, k) \<in> set (triangular_schedule N) \<longleftrightarrow>
     l < 2 * N - 3 \<and> k < N - 1 \<and> (\<exists>j. k = triangular_start N l + 2 * j)"
proof -
  have "(triangular_start N l \<le> k \<and> even (k - triangular_start N l))
        = (\<exists>j. k = triangular_start N l + 2 * j)"
  proof
    assume a: "triangular_start N l \<le> k \<and> even (k - triangular_start N l)"
    then obtain j where "k - triangular_start N l = 2 * j" by (blast elim: evenE)
    with a have "k = triangular_start N l + 2 * j" by simp
    then show "\<exists>j. k = triangular_start N l + 2 * j" ..
  next
    assume "\<exists>j. k = triangular_start N l + 2 * j"
    then show "triangular_start N l \<le> k \<and> even (k - triangular_start N l)" by auto
  qed
  then show ?thesis
    unfolding triangular_schedule_def layers_member
    by (auto simp: triangular_layer_def)
qed

lemma scan_order_rectangular: "sorted_wrt scan_before (rectangular_schedule N)"
  unfolding rectangular_schedule_def
  by (rule scan_order_layers) (rule sorted_rectangular_layer)

lemma scan_order_triangular: "sorted_wrt scan_before (triangular_schedule N)"
  unfolding triangular_schedule_def
  by (rule scan_order_layers) (rule sorted_triangular_layer)


section \<open>The mesh schedules\<close>

text \<open>
  C2. For at least two wires and either mesh, the Interferometer returns normally when
  \<open>theta\<close> and \<open>phi\<close> have exactly \<open>N (N - 1) / 2\<close> entries: the schedule has
  \<open>N (N - 1) / 2\<close> entries, each pair index \<open>k\<close> of it has \<open>k\<close> and \<open>k + 1\<close> below \<open>N\<close>
  (two different wires when the wires are distinct), the Beamsplitter operations of
  the queue are exactly one per entry, the \<open>i\<close>-th of them built from \<open>theta[i]\<close> (and
  \<open>phi[i]\<close>) for \<open>i = 0 \<dots> N (N - 1) / 2 - 1\<close>, and the counter \<open>n\<close> stands at
  \<open>N (N - 1) / 2\<close> when the mesh loops end.
\<close>

theorem Interferometer_coupling_count:
  assumes "2 \<le> length w"
    and "mesh = Str ''rectangular'' \<or> mesh = Str ''triangular''"
    and "\<not> is_VarArg beamsplitter"
    and "length theta = length w * (length w - 1) div 2"
    and "length phi = length w * (length w - 1) div 2"
    and "length varphi \<le> length w"
  shows "length (mesh_schedule mesh (length w)) = length w * (length w - 1) div 2 \<and>
    (\<forall>(l, k) \<in> set (mesh_schedule mesh (length w)).
        k < length w \<and> Suc k < length w \<and> (distinct w \<longrightarrow> w ! k \<noteq> w ! Suc k)) \<and>
    Interferometer theta phi varphi (Wires w) mesh beamsplitter =
      Inr (schedule_ops beamsplitter theta phi w (mesh_schedule mesh (length w))
           @ final_rotations w varphi) \<and>
    filter is_Beamsplitter
      (schedule_ops beamsplitter theta phi w (mesh_schedule mesh (length w))
       @ final_rotations w varphi) =
      map (\<lambda>i. Beamsplitter (theta ! i) (if beamsplitter = Str ''clements'' then 0 else phi ! i)
                  (w ! snd (mesh_schedule mesh (length w) ! i))
                  (w ! Suc (snd (mesh_schedule mesh (length w) ! i))))
          [0..<length w * (length w - 1) div 2] \<and>
    (if mesh = Str ''rectangular'' then rectangular_mesh theta phi beamsplitter w (0, [])
     else triangular_mesh theta phi beamsplitter w (0, [])) =
      Inr (length w * (length w - 1) div 2,
           schedule_ops beamsplitter theta phi w (mesh_schedule mesh (length w)))"
proof -
  let ?sched = "mesh_schedule mesh (length w)"
  have len: "length ?sched = length w * (length w - 1) div 2"
    using assms(2) by (rule length_mesh_schedule)
  have valid: "\<forall>(l, k) \<in> set ?sched.
      k < length w \<and> Suc k < length w \<and> (distinct w \<longrightarrow> w ! k \<noteq> w ! Suc k)"
  proof (clarify, intro conjI impI)
    fix l k
    assume "(l, k) \<in> set ?sched"
    then have k: "Suc k < length w" by (rule mesh_schedule_bound)
    then show "k < length w" "Suc k < length w" by simp_all
    assume "distinct w"
    with k show "w ! k \<noteq> w ! Suc k" by (simp add: nth_eq_iff_index_eq)
  qed
  have mesh: "\<not> is_VarArg mesh" using assms(2) by auto
  have run: "Interferometer theta phi varphi (Wires w) mesh beamsplitter =
      Inr (schedule_ops beamsplitter theta phi w ?sched @ final_rotations w varphi)"
    by (rule Interferometer_schedule) (use assms mesh len in simp_all)
  have bs: "filter is_Beamsplitter
      (schedule_ops beamsplitter theta phi w ?sched @ final_rotations w varphi) =
      map (\<lambda>i. Beamsplitter (theta ! i) (if beamsplitter = Str ''clements'' then 0 else phi ! i)
                  (w ! snd (?sched ! i)) (w ! Suc (snd (?sched ! i))))
          [0..<length w * (length w - 1) div 2]"
    by (simp only: filter_append filter_Beamsplitter_schedule_ops filter_Beamsplitter_final
          append_Nil2 len)
  have "(if mesh = Str ''rectangular'' then rectangular_mesh theta phi beamsplitter w (0, [])
         else if mesh = Str ''triangular'' then triangular_mesh theta phi beamsplitter w (0, [])
         else Inr (0, []))
        = Inr (length ?sched, emit (coupling_ops beamsplitter theta phi w) 0 (map snd ?sched))"
    by (rule mesh_run) (use assms len in simp_all)
  then have loops: "(if mesh = Str ''rectangular'' then rectangular_mesh theta phi beamsplitter w (0, [])
      else triangular_mesh theta phi beamsplitter w (0, [])) =
      Inr (length w * (length w - 1) div 2, schedule_ops beamsplitter theta phi w ?sched)"
    using assms(2) by (auto simp only: emit_schedule schedule_ops_def len split: if_splits)
  from len valid run bs loops show ?thesis by (intro conjI)
qed

theorem Interferometer_coupling_count_witness:
  "Interferometer [1, 2, 3] [4, 5, 6] [7, 8, 9] (Wires [0, 1, 2]) (Str ''triangular'')
     (Str ''pennylane'') =
   Inr [Beamsplitter 1 4 1 2, Beamsplitter 2 5 0 1, Beamsplitter 3 6 1 2,
        Rotation 7 0, Rotation 8 1, Rotation 9 2] \<and>
   triangular_mesh [1, 2, 3] [4, 5, 6] (Str ''pennylane'') [0, 1, 2] (0, []) =
   Inr (3, [Beamsplitter 1 4 1 2, Beamsplitter 2 5 0 1, Beamsplitter 3 6 1 2])"
  using Interferometer_coupling_count [where w = "[0, 1, 2]" and mesh = "Str ''triangular''"
      and beamsplitter = "Str ''pennylane''" and theta = "[1, 2, 3]" and phi = "[4, 5, 6]"
      and varphi = "[7, 8, 9]"]
  by (simp add: mesh_schedule_def triangular_schedule_def triangular_layer_def
        triangular_start_def schedule_ops_def coupling_ops_def final_rotations_def upt_rec)

text \<open>
  C3. With the rectangular mesh and at least two wires, the queue is that of the
  schedule which holds \<open>(l, k)\<close> exactly for the layers \<open>l < N\<close> and the pair indices
  \<open>k < N - 1\<close> with \<open>(l + k) mod 2 \<noteq> 1\<close>, in scan order, entry \<open>i\<close> taking the slot \<open>i\<close>
  and acting on the wires \<open>k\<close> and \<open>k + 1\<close>. For \<open>N = 4\<close> the layers select the pair
  indices \<open>0, 2\<close>, then \<open>1\<close>, then \<open>0, 2\<close>, then \<open>1\<close>, six entries in all. The channels
  \<open>k\<close>, \<open>k + 1\<close> of the pairs of one layer are all different.
\<close>

theorem Interferometer_rectangular_schedule:
  assumes "2 \<le> length w"
    and "\<not> is_VarArg beamsplitter"
    and "length w * (length w - 1) div 2 \<le> length theta"
    and "length w * (length w - 1) div 2 \<le> length phi"
    and "length varphi \<le> length w"
  shows "Interferometer theta phi varphi (Wires w) (Str ''rectangular'') beamsplitter =
      Inr (schedule_ops beamsplitter theta phi w (rectangular_schedule (length w))
           @ final_rotations w varphi) \<and>
    (\<forall>l k. (l, k) \<in> set (rectangular_schedule (length w)) \<longleftrightarrow>
        l < length w \<and> k < length w - 1 \<and> (l + k) mod 2 \<noteq> 1) \<and>
    sorted_wrt scan_before (rectangular_schedule (length w)) \<and>
    (\<forall>l. distinct (concat (map (\<lambda>k. [k, Suc k]) (rectangular_layer (length w) l)))) \<and>
    map (rectangular_layer 4) [0..<4] = [[0, 2], [1], [0, 2], [1]] \<and>
    length (rectangular_schedule 4) = 6"
proof -
  have sched: "mesh_schedule (Str ''rectangular'') (length w) = rectangular_schedule (length w)"
    by (simp add: mesh_schedule_def)
  have "Interferometer theta phi varphi (Wires w) (Str ''rectangular'') beamsplitter =
      Inr (schedule_ops beamsplitter theta phi w (mesh_schedule (Str ''rectangular'') (length w))
           @ final_rotations w varphi)"
    by (rule Interferometer_schedule)
       (use assms in \<open>simp_all add: sched length_rectangular_schedule\<close>)
  then have run: "Interferometer theta phi varphi (Wires w) (Str ''rectangular'') beamsplitter =
      Inr (schedule_ops beamsplitter theta phi w (rectangular_schedule (length w))
           @ final_rotations w varphi)"
    by (simp only: sched)
  have four: "map (rectangular_layer 4) [0..<4] = [[0, 2], [1], [0, 2], [1]]"
    by (simp add: rectangular_layer_def upt_rec)
  have six: "length (rectangular_schedule 4) = 6"
    by (simp add: length_rectangular_schedule)
  from run four six show ?thesis
    by (simp only: rectangular_schedule_member scan_order_rectangular
          rectangular_layer_disjoint simp_thms)
qed

theorem Interferometer_rectangular_schedule_witness:
  "Interferometer [1, 2, 3, 4, 5, 6] [11, 12, 13, 14, 15, 16] [21, 22, 23, 24]
     (Wires [0, 1, 2, 3]) (Str ''rectangular'') (Str ''pennylane'') =
   Inr [Beamsplitter 1 11 0 1, Beamsplitter 2 12 2 3, Beamsplitter 3 13 1 2,
        Beamsplitter 4 14 0 1, Beamsplitter 5 15 2 3, Beamsplitter 6 16 1 2,
        Rotation 21 0, Rotation 22 1, Rotation 23 2, Rotation 24 3] \<and>
   rectangular_schedule 4 = [(0, 0), (0, 2), (1, 1), (2, 0), (2, 2), (3, 1)]"
  using Interferometer_rectangular_schedule [where w = "[0, 1, 2, 3]"
      and beamsplitter = "Str ''pennylane''" and theta = "[1, 2, 3, 4, 5, 6]"
      and phi = "[11, 12, 13, 14, 15, 16]" and varphi = "[21, 22, 23, 24]"]
  by (simp add: rectangular_schedule_def rectangular_layer_def
        schedule_ops_def coupling_ops_def final_rotations_def upt_rec)

text \<open>
  C4. With the triangular mesh and at least two wires, the queue is that of the
  schedule which holds \<open>(l, k)\<close> exactly for the layers \<open>l \<le> 2N - 4\<close> and the pair
  indices \<open>k = |l + 1 - (N - 1)| + 2 j\<close> below \<open>N - 1\<close>, in scan order, entry \<open>i\<close>
  taking the slot \<open>i\<close> of \<open>theta\<close> and \<open>phi\<close> and acting on the wires \<open>k\<close> and \<open>k + 1\<close>.
\<close>

theorem Interferometer_triangular_schedule:
  assumes "2 \<le> length w"
    and "\<not> is_VarArg beamsplitter"
    and "length w * (length w - 1) div 2 \<le> length theta"
    and "length w * (length w - 1) div 2 \<le> length phi"
    and "length varphi \<le> length w"
  shows "Interferometer theta phi varphi (Wires w) (Str ''triangular'') beamsplitter =
      Inr (schedule_ops beamsplitter theta phi w (triangular_schedule (length w))
           @ final_rotations w varphi) \<and>
    (\<forall>l k. (l, k) \<in> set (triangular_schedule (length w)) \<longleftrightarrow>
        int l \<le> 2 * int (length w) - 4 \<and> k < length w - 1 \<and>
        (\<exists>j. int k = \<bar>int l + 1 - (int (length w) - 1)\<bar> + 2 * int j)) \<and>
    sorted_wrt scan_before (triangular_schedule (length w))"
proof -
  have sched: "mesh_schedule (Str ''triangular'') (length w) = triangular_schedule (length w)"
    by (simp add: mesh_schedule_def)
  have "Interferometer theta phi varphi (Wires w) (Str ''triangular'') beamsplitter =
      Inr (schedule_ops beamsplitter theta phi w (mesh_schedule (Str ''triangular'') (length w))
           @ final_rotations w varphi)"
    by (rule Interferometer_schedule)
       (use assms in \<open>simp_all add: sched length_triangular_schedule\<close>)
  then have run: "Interferometer theta phi varphi (Wires w) (Str ''triangular'') beamsplitter =
      Inr (schedule_ops beamsplitter theta phi w (triangular_schedule (length w))
           @ final_rotations w varphi)"
    by (simp only: sched)
  have member: "(l, k) \<in> set (triangular_schedule (length w)) \<longleftrightarrow>
        int l \<le> 2 * int (length w) - 4 \<and> k < length w - 1 \<and>
        (\<exists>j. int k = \<bar>int l + 1 - (int (length w) - 1)\<bar> + 2 * int j)" for l k
  proof -
    have a: "l < 2 * length w - 3 \<longleftrightarrow> int l \<le> 2 * int (length w) - 4"
      using assms(1) by auto
    have b: "k = triangular_start (length w) l + 2 * j \<longleftrightarrow>
             int k = \<bar>int l + 1 - (int (length w) - 1)\<bar> + 2 * int j" for j
      unfolding triangular_start_def by linarith
    show ?thesis by (simp only: triangular_schedule_member a b)
  qed
  from run show ?thesis
    by (simp only: member scan_order_triangular simp_thms)
qed

theorem Interferometer_triangular_schedule_witness:
  "Interferometer [1, 2, 3, 4, 5, 6] [11, 12, 13, 14, 15, 16] [21, 22, 23]
     (Wires [0, 1, 2, 3]) (Str ''triangular'') (Str ''pennylane'') =
   Inr [Beamsplitter 1 11 2 3, Beamsplitter 2 12 1 2, Beamsplitter 3 13 0 1,
        Beamsplitter 4 14 2 3, Beamsplitter 5 15 1 2, Beamsplitter 6 16 2 3,
        Rotation 21 0, Rotation 22 1, Rotation 23 2] \<and>
   triangular_schedule 4 = [(0, 2), (1, 1), (2, 0), (2, 2), (3, 1), (4, 2)]"
  using Interferometer_triangular_schedule [where w = "[0, 1, 2, 3]"
      and beamsplitter = "Str ''pennylane''" and theta = "[1, 2, 3, 4, 5, 6]"
      and phi = "[11, 12, 13, 14, 15, 16]" and varphi = "[21, 22, 23]"]
  by (simp add: triangular_schedule_def triangular_layer_def triangular_start_def
        schedule_ops_def coupling_ops_def final_rotations_def upt_rec)

section \<open>The two beamsplitter conventions\<close>

text \<open>
  C5. For at least two wires and either mesh: with \<^verbatim>\<open>beamsplitter='clements'\<close> every
  entry \<open>i\<close> of the schedule contributes a Rotation by \<open>phi[i]\<close> on the first wire of its
  pair, followed at once by the Beamsplitter on the pair with \<open>theta[i]\<close> and the phase
  \<open>0\<close>; with any other value of \<open>beamsplitter\<close> (the default \<^verbatim>\<open>'pennylane'\<close> among them)
  the entry contributes the Beamsplitter with \<open>theta[i]\<close> and \<open>phi[i]\<close> alone.
\<close>

theorem Interferometer_beamsplitter_convention:
  assumes "2 \<le> length w"
    and "mesh = Str ''rectangular'' \<or> mesh = Str ''triangular''"
    and "\<not> is_VarArg beamsplitter"
    and "length w * (length w - 1) div 2 \<le> length theta"
    and "length w * (length w - 1) div 2 \<le> length phi"
    and "length varphi \<le> length w"
  shows "Interferometer theta phi varphi (Wires w) mesh beamsplitter =
      Inr ((if beamsplitter = Str ''clements'' then
              concat (map (\<lambda>i. [Rotation (phi ! i) (w ! snd (mesh_schedule mesh (length w) ! i)),
                                 Beamsplitter (theta ! i) 0
                                   (w ! snd (mesh_schedule mesh (length w) ! i))
                                   (w ! Suc (snd (mesh_schedule mesh (length w) ! i)))])
                        [0..<length w * (length w - 1) div 2])
            else
              map (\<lambda>i. Beamsplitter (theta ! i) (phi ! i)
                          (w ! snd (mesh_schedule mesh (length w) ! i))
                          (w ! Suc (snd (mesh_schedule mesh (length w) ! i))))
                  [0..<length w * (length w - 1) div 2])
           @ final_rotations w varphi)"
proof -
  let ?sched = "mesh_schedule mesh (length w)"
  have len: "length ?sched = length w * (length w - 1) div 2"
    using assms(2) by (rule length_mesh_schedule)
  have mesh: "\<not> is_VarArg mesh" using assms(2) by auto
  have run: "Interferometer theta phi varphi (Wires w) mesh beamsplitter =
      Inr (schedule_ops beamsplitter theta phi w ?sched @ final_rotations w varphi)"
    by (rule Interferometer_schedule) (use assms mesh len in simp_all)
  show ?thesis
  proof (cases "beamsplitter = Str ''clements''")
    case True
    then show ?thesis
      unfolding run schedule_ops_def len by (simp add: coupling_ops_def)
  next
    case False
    have "concat (map (\<lambda>i. [Beamsplitter (theta ! i) (phi ! i) (w ! snd (?sched ! i))
                               (w ! Suc (snd (?sched ! i)))]) xs)
          = map (\<lambda>i. Beamsplitter (theta ! i) (phi ! i) (w ! snd (?sched ! i))
                        (w ! Suc (snd (?sched ! i)))) xs" for xs
      by (induction xs) simp_all
    with False show ?thesis
      unfolding run schedule_ops_def len by (simp add: coupling_ops_def)
  qed
qed

theorem Interferometer_beamsplitter_convention_witness:
  "Interferometer [1, 2, 3] [4, 5, 6] [7, 8] (Wires [0, 1, 2]) (Str ''rectangular'')
     (Str ''clements'') =
   Inr [Rotation 4 0, Beamsplitter 1 0 0 1, Rotation 5 1, Beamsplitter 2 0 1 2,
        Rotation 6 0, Beamsplitter 3 0 0 1, Rotation 7 0, Rotation 8 1] \<and>
   Interferometer [1, 2, 3] [4, 5, 6] [7, 8] (Wires [0, 1, 2]) (Str ''triangular'')
     (Str ''pennylane'') =
   Inr [Beamsplitter 1 4 1 2, Beamsplitter 2 5 0 1, Beamsplitter 3 6 1 2,
        Rotation 7 0, Rotation 8 1]"
  using Interferometer_beamsplitter_convention [where w = "[0, 1, 2]"
      and mesh = "Str ''rectangular''" and beamsplitter = "Str ''clements''"
      and theta = "[1, 2, 3]" and phi = "[4, 5, 6]" and varphi = "[7, 8]"]
    Interferometer_beamsplitter_convention [where w = "[0, 1, 2]"
      and mesh = "Str ''triangular''" and beamsplitter = "Str ''pennylane''"
      and theta = "[1, 2, 3]" and phi = "[4, 5, 6]" and varphi = "[7, 8]"]
  by (simp add: mesh_schedule_def rectangular_schedule_def rectangular_layer_def
        triangular_schedule_def triangular_layer_def triangular_start_def
        final_rotations_def upt_rec)

section \<open>Static configuration\<close>

text \<open>
  C6. When the mesh selector or the beamsplitter selector is a \<^verbatim>\<open>Variable\<close>, the
  Interferometer raises \<^verbatim>\<open>QuantumFunctionError\<close>, saying that the parameter influences
  the circuit architecture and can not be passed as a QNode parameter, and the queue
  is still empty at that point; the number of wires plays no part, so this holds for
  one wire too.
\<close>

theorem Interferometer_rejects_Variable:
  assumes "is_VarArg mesh \<or> is_VarArg beamsplitter"
  shows "Interferometer theta phi varphi wires mesh beamsplitter =
         Inl (QuantumFunctionError
               (if is_VarArg beamsplitter
                then ''The beamsplitter parameter influences the circuit architecture and can not be passed as a QNode parameter.''
                else ''The mesh parameter influences the circuit architecture and can not be passed as a QNode parameter.''),
              [])"
  using assms by (auto simp add: Interferometer_def)

theorem Interferometer_rejects_Variable_witness:
  "(is_VarArg (VarArg 0) \<or> is_VarArg (Str ''clements'')) \<and>
   Interferometer [] [] [1] (Wire 0) (VarArg 0) (Str ''clements'') =
     Inl (QuantumFunctionError
           ''The mesh parameter influences the circuit architecture and can not be passed as a QNode parameter.'',
          []) \<and>
   Interferometer [1] [2] [3, 4] (Wires [0, 1]) (Str ''rectangular'') (VarArg 7) =
     Inl (QuantumFunctionError
           ''The beamsplitter parameter influences the circuit architecture and can not be passed as a QNode parameter.'',
          [])"
  using Interferometer_rejects_Variable [of "VarArg 0" "Str ''clements''" "[]" "[]" "[1]" "Wire 0"]
    Interferometer_rejects_Variable [of "Str ''rectangular''" "VarArg 7" "[1]" "[2]" "[3, 4]" "Wires [0, 1]"]
  by simp

section \<open>Flattening\<close>

lemma concat_map_concat_map:
  "concat (map f (concat (map g xs))) = concat (map (\<lambda>x. concat (map f (g x))) xs)"
  by (induction xs) simp_all

lemma p_flatten_ndarray_flat:
  "p_flatten (NdArray d xs) = concat (map p_flatten (ndarray_flat (NdArray d xs)))"
proof -
  have "p_flatten x = concat (map p_flatten (ndarray_flat x))" for x
  proof (induction x)
    case (NdArray d xs)
    then have eq: "map p_flatten xs = map (\<lambda>x. concat (map p_flatten (ndarray_flat x))) xs"
      by (intro map_cong) simp_all
    show ?case by (simp only: p_flatten.simps ndarray_flat.simps concat_map_concat_map eq)
  qed simp_all
  then show ?thesis .
qed

lemma length_p_flatten: "length (p_flatten M) = leaf_count M"
proof (induction M)
  case (PyList xs)
  then have eq: "map (\<lambda>x. length (p_flatten x)) xs = map leaf_count xs"
    by (intro map_cong) simp_all
  show ?case by (simp add: length_concat comp_def eq)
next
  case (PyTuple xs)
  then have eq: "map (\<lambda>x. length (p_flatten x)) xs = map leaf_count xs"
    by (intro map_cong) simp_all
  show ?case by (simp add: length_concat comp_def eq)
next
  case (NdArray d xs)
  then have eq: "map (\<lambda>x. length (p_flatten x)) xs = map leaf_count xs"
    by (intro map_cong) simp_all
  show ?case by (simp add: length_concat comp_def eq)
qed simp_all

lemma p_flatten_leaf: "is_leaf x \<Longrightarrow> p_flatten x = [x]"
  by (cases x) simp_all

lemma leaf_count_leaf: "is_leaf x \<Longrightarrow> leaf_count x = 1"
  by (cases x) simp_all

section \<open>The array that \<^verbatim>\<open>_unflatten\<close> builds\<close>

lemma np_items_length: "np_items d xs = Inr ys \<Longrightarrow> length ys = length xs"
  by (induction xs arbitrary: ys) (auto split: sum.splits)

lemma gen_length_flag:
  "gen flat xs = Inr (rs, enc, tail) \<Longrightarrow> length rs = length xs \<and> enc = list_ex is_Variable rs"
proof (induction xs arbitrary: flat rs enc tail)
  case Nil
  then show ?case by auto
next
  case (Cons x xs)
  from Cons.prems obtain r flat' rs' enc' where
    x: "p_unflatten flat x = Inr (r, flat')" and
    g: "gen flat' xs = Inr (rs', enc', tail)" and
    rs: "rs = r # rs'" and enc: "enc = (is_Variable r \<or> enc')"
    by (auto split: sum.splits prod.splits)
  from Cons.IH [OF g] rs enc show ?case by simp
qed

text \<open>
  When \<^verbatim>\<open>_unflatten\<close> returns for an array model of nonzero length, the array it
  returns has as many items as the model, and its dtype is \<^verbatim>\<open>object\<close> exactly when one
  of the items restored for the model's own items is a \<^verbatim>\<open>Variable\<close>; otherwise it is
  the model's.
\<close>

lemma p_unflatten_ndarray_dtype:
  assumes "xs \<noteq> []" and "p_unflatten flat (NdArray d xs) = Inr (res, tail)"
  shows "\<exists>rs ys. gen flat xs = Inr (rs, list_ex is_Variable rs, tail) \<and>
           res = NdArray (if list_ex is_Variable rs then Object else d) ys \<and>
           length ys = length xs"
proof -
  from assms obtain rs enc where g: "gen flat xs = Inr (rs, enc, tail)"
    and a: "np_array (if enc then Object else d) (PyList rs) = Inr res"
    by (auto split: sum.splits prod.splits)
  from gen_length_flag [OF g] have len: "length rs = length xs"
    and enc: "enc = list_ex is_Variable rs" by simp_all
  from a obtain ys where ys: "np_items (if enc then Object else d) rs = Inr ys"
    and res: "res = NdArray (if enc then Object else d) ys"
    by (auto simp: np_array_def split: sum.splits)
  from np_items_length [OF ys] len have "length ys = length xs" by simp
  with g res enc show ?thesis by auto
qed

section \<open>What \<^verbatim>\<open>_unflatten\<close> consumes\<close>

lemma gen_tail:
  assumes "\<And>x flat res tail. x \<in> set xs \<Longrightarrow> p_unflatten flat x = Inr (res, tail) \<Longrightarrow>
             leaf_count x \<le> length flat \<and> tail = drop (leaf_count x) flat"
    and "gen flat xs = Inr (rs, enc, tail)"
  shows "sum_list (map leaf_count xs) \<le> length flat \<and>
         tail = drop (sum_list (map leaf_count xs)) flat"
  using assms
proof (induction xs arbitrary: flat rs enc tail)
  case Nil
  then show ?case by simp
next
  case (Cons x xs)
  from Cons.prems(2) obtain r flat' rs' enc' where
    x: "p_unflatten flat x = Inr (r, flat')" and
    g: "gen flat' xs = Inr (rs', enc', tail)"
    by (auto split: sum.splits prod.splits)
  from Cons.prems(1) [OF _ x] have c: "leaf_count x \<le> length flat"
    and f: "flat' = drop (leaf_count x) flat" by simp_all
  have "sum_list (map leaf_count xs) \<le> length flat' \<and>
        tail = drop (sum_list (map leaf_count xs)) flat'"
    by (rule Cons.IH [OF _ g]) (use Cons.prems(1) in auto)
  with c f show ?case by (auto simp: add.commute)
qed

text \<open>
  Whenever \<^verbatim>\<open>_unflatten\<close> returns for a regular model, it has consumed as many
  elements as the model has leaves.
\<close>

lemma p_unflatten_tail:
  "regular M \<Longrightarrow> p_unflatten flat M = Inr (res, tail) \<Longrightarrow>
   leaf_count M \<le> length flat \<and> tail = drop (leaf_count M) flat"
proof (induction M arbitrary: flat res tail)
  case (Num r)
  then show ?case by (auto simp: flat0_def flat1_def split: list.splits)
next
  case (Var i)
  then show ?case by (auto simp: flat0_def flat1_def split: list.splits)
next
  case (PyObj t)
  then show ?case by simp
next
  case (PyList xs)
  show ?case
  proof (cases "xs = []")
    case True
    with PyList.prems show ?thesis by auto
  next
    case False
    with PyList.prems obtain rs enc where g: "gen flat xs = Inr (rs, enc, tail)"
      by (auto split: sum.splits prod.splits)
    have "sum_list (map leaf_count xs) \<le> length flat \<and>
          tail = drop (sum_list (map leaf_count xs)) flat"
      by (rule gen_tail [OF _ g]) (use PyList in \<open>auto simp: list_all_iff\<close>)
    then show ?thesis by simp
  qed
next
  case (PyTuple xs)
  show ?case
  proof (cases "xs = []")
    case True
    with PyTuple.prems show ?thesis by auto
  next
    case False
    with PyTuple.prems obtain rs enc where g: "gen flat xs = Inr (rs, enc, tail)"
      by (auto split: sum.splits prod.splits)
    have "sum_list (map leaf_count xs) \<le> length flat \<and>
          tail = drop (sum_list (map leaf_count xs)) flat"
      by (rule gen_tail [OF _ g]) (use PyTuple in \<open>auto simp: list_all_iff\<close>)
    then show ?thesis by simp
  qed
next
  case (NdArray0 d v)
  then have "leaf_count v = 1" by (simp add: leaf_count_leaf)
  with NdArray0.prems show ?case
    by (auto simp: flat0_def flat1_def split: list.splits sum.splits)
next
  case (NdArray d xs)
  then have ne: "xs \<noteq> []" by simp
  with NdArray.prems obtain rs enc where g: "gen flat xs = Inr (rs, enc, tail)"
    by (auto split: sum.splits prod.splits)
  have "sum_list (map leaf_count xs) \<le> length flat \<and>
        tail = drop (sum_list (map leaf_count xs)) flat"
    by (rule gen_tail [OF _ g]) (use NdArray in \<open>auto simp: list_all_iff\<close>)
  then show ?case by simp
qed

text \<open>
  So \<^verbatim>\<open>unflatten\<close> returns nothing for a regular model and a sequence whose length is
  not the leaf count of the model.
\<close>

lemma unflatten_wrong_length:
  assumes "regular M" and "length F \<noteq> leaf_count M"
  shows "unflatten F M \<noteq> Inr res"
proof
  assume r: "unflatten F M = Inr res"
  then obtain tail where p: "p_unflatten F M = Inr (res, tail)" and t: "tail = []"
    by (auto simp: unflatten_def split: sum.splits prod.splits if_splits)
  from p_unflatten_tail [OF assms(1) p] t assms(2) show False by simp
qed

section \<open>Sequences that numpy keeps as they are\<close>

lemma np_item_Object_leaf: "is_leaf x \<Longrightarrow> np_item Object x = Inr x"
  by (cases x) (simp_all add: np_cast_def)

lemma np_item_kept:
  "(\<forall>x \<in> set (p_flatten a). is_leaf x \<and> np_item d x = Inr x) \<Longrightarrow>
     \<exists>a'. np_item d a = Inr a' \<and> p_flatten a' = p_flatten a"
  "(\<forall>x \<in> set (concat (map p_flatten as)). is_leaf x \<and> np_item d x = Inr x) \<Longrightarrow>
     \<exists>as'. np_items d as = Inr as' \<and> concat (map p_flatten as') = concat (map p_flatten as)"
proof (induction d a and d as rule: np_item_np_items.induct)
  case (1 d r)
  then show ?case by simp
next
  case (2 d i)
  then show ?case by simp
next
  case (3 d t)
  then show ?case by simp
next
  case (4 d d' x)
  then show ?case by simp
next
  case (5 d d' xs)
  then obtain ys where "np_items d xs = Inr ys"
    "concat (map p_flatten ys) = concat (map p_flatten xs)" by auto
  then show ?case by simp
next
  case (6 d xs)
  then obtain ys where "np_items d xs = Inr ys"
    "concat (map p_flatten ys) = concat (map p_flatten xs)" by auto
  then show ?case by simp
next
  case (7 d xs)
  then obtain ys where "np_items d xs = Inr ys"
    "concat (map p_flatten ys) = concat (map p_flatten xs)" by auto
  then show ?case by simp
next
  case (8 d)
  show ?case by simp
next
  case (9 d x xs)
  from 9(1,3) obtain y where y: "np_item d x = Inr y" "p_flatten y = p_flatten x" by auto
  from 9(2) [OF y(1)] 9(3) obtain ys where ys: "np_items d xs = Inr ys"
    "concat (map p_flatten ys) = concat (map p_flatten xs)" by auto
  from y ys show ?case by simp
qed

lemma kept_by_leaf: "kept_by M x \<Longrightarrow> is_leaf x"
  by (simp add: kept_by_def)

lemma kept_by_item:
  assumes "x \<in> set xs" and "M = PyList xs \<or> M = PyTuple xs \<or> M = NdArray d xs"
    and "kept_by M y"
  shows "kept_by x y"
  using assms by (auto simp: kept_by_def list_all_iff)

lemma kept_by_dtype:
  "kept_by (NdArray d xs) y \<Longrightarrow> np_item d y = Inr y"
  "kept_by (NdArray0 d v) y \<Longrightarrow> np_item d y = Inr y"
  by (simp_all add: kept_by_def)

lemma list_all_drop: "list_all P flat \<Longrightarrow> list_all P (drop n flat)"
  by (auto simp: list_all_iff dest: in_set_dropD)

lemma list_all_take: "list_all P flat \<Longrightarrow> list_all P (take n flat)"
  by (auto simp: list_all_iff dest: in_set_takeD)

lemma gen_consume:
  assumes "\<And>x flat. x \<in> set xs \<Longrightarrow> list_all P flat \<Longrightarrow> leaf_count x \<le> length flat \<Longrightarrow>
             \<exists>res. p_unflatten flat x = Inr (res, drop (leaf_count x) flat) \<and>
                   p_flatten res = take (leaf_count x) flat"
    and "list_all P flat"
    and "sum_list (map leaf_count xs) \<le> length flat"
  shows "\<exists>rs enc. gen flat xs = Inr (rs, enc, drop (sum_list (map leaf_count xs)) flat) \<and>
           concat (map p_flatten rs) = take (sum_list (map leaf_count xs)) flat"
  using assms
proof (induction xs arbitrary: flat)
  case Nil
  show ?case by (intro exI [of _ "[]"] exI [of _ False]) simp
next
  case (Cons x xs)
  let ?c = "leaf_count x" and ?s = "sum_list (map leaf_count xs)"
  from Cons.prems(3) have c: "?c \<le> length flat" and s: "?s \<le> length (drop ?c flat)"
    by simp_all
  from Cons.prems(1) [of x flat] Cons.prems(2) c obtain res where
    res: "p_unflatten flat x = Inr (res, drop ?c flat)" and
    fl: "p_flatten res = take ?c flat"
    by auto
  have "\<exists>rs enc. gen (drop ?c flat) xs = Inr (rs, enc, drop ?s (drop ?c flat)) \<and>
           concat (map p_flatten rs) = take ?s (drop ?c flat)"
    by (rule Cons.IH) (use Cons.prems(1,2) s in \<open>auto simp: list_all_drop\<close>)
  then obtain rs enc where
    g: "gen (drop ?c flat) xs = Inr (rs, enc, drop ?s (drop ?c flat))" and
    gl: "concat (map p_flatten rs) = take ?s (drop ?c flat)"
    by blast
  have d: "drop ?s (drop ?c flat) = drop (?c + ?s) flat"
    by (metis drop_drop add.commute)
  have t: "take (?c + ?s) flat = take ?c flat @ take ?s (drop ?c flat)"
    by (rule take_add)
  have "gen flat (x # xs) = Inr (res # rs, is_Variable res \<or> enc, drop (?c + ?s) flat)"
    by (simp add: res g d [symmetric] del: drop_drop)
  moreover have "concat (map p_flatten (res # rs)) = take (?c + ?s) flat"
    using fl gl by (simp add: t)
  ultimately show ?case by simp
qed

lemma gen_starved:
  assumes "\<And>x flat. x \<in> set xs \<Longrightarrow> list_all P flat \<Longrightarrow> leaf_count x \<le> length flat \<Longrightarrow>
             \<exists>res. p_unflatten flat x = Inr (res, drop (leaf_count x) flat) \<and>
                   p_flatten res = take (leaf_count x) flat"
    and "\<And>x flat. x \<in> set xs \<Longrightarrow> list_all P flat \<Longrightarrow> length flat < leaf_count x \<Longrightarrow>
             p_unflatten flat x = Inl IndexError"
    and "list_all P flat"
    and "length flat < sum_list (map leaf_count xs)"
  shows "gen flat xs = Inl IndexError"
  using assms
proof (induction xs arbitrary: flat)
  case Nil
  then show ?case by simp
next
  case (Cons x xs)
  show ?case
  proof (cases "length flat < leaf_count x")
    case True
    with Cons.prems(2) [of x flat] Cons.prems(3) show ?thesis by simp
  next
    case False
    with Cons.prems(1) [of x flat] Cons.prems(3) obtain res where
      res: "p_unflatten flat x = Inr (res, drop (leaf_count x) flat)"
      by auto
    have "gen (drop (leaf_count x) flat) xs = Inl IndexError"
      by (rule Cons.IH) (use Cons.prems False in \<open>auto simp: list_all_drop\<close>)
    with res show ?thesis by simp
  qed
qed

text \<open>
  For a regular model and a sequence of elements that the model keeps, \<^verbatim>\<open>_unflatten\<close>
  returns when the sequence has at least as many elements as the model has leaves: the
  structure returned flattens to the elements consumed, and the tail is the rest. When
  the sequence is shorter, \<^verbatim>\<open>_unflatten\<close> raises \<^verbatim>\<open>IndexError\<close>.
\<close>

lemma p_unflatten_kept:
  "regular M \<Longrightarrow>
   (\<forall>flat. list_all (kept_by M) flat \<longrightarrow>
      (leaf_count M \<le> length flat \<longrightarrow>
         (\<exists>res. p_unflatten flat M = Inr (res, drop (leaf_count M) flat) \<and>
                p_flatten res = take (leaf_count M) flat)) \<and>
      (length flat < leaf_count M \<longrightarrow> p_unflatten flat M = Inl IndexError))"
proof (induction M)
  case (Num r)
  show ?case
    by (auto simp: flat0_def flat1_def take_Suc p_flatten_leaf kept_by_def split: list.splits)
next
  case (Var i)
  show ?case
    by (auto simp: flat0_def flat1_def take_Suc p_flatten_leaf kept_by_def split: list.splits)
next
  case (PyObj t)
  then show ?case by simp
next
  case (PyList xs)
  from PyList.prems have reg: "\<And>x. x \<in> set xs \<Longrightarrow> regular x"
    by (simp add: list_all_iff)
  have keep: "list_all (kept_by x) flat"
    if "x \<in> set xs" "list_all (kept_by (PyList xs)) flat" for x flat
    using that by (auto simp: list_all_iff intro: kept_by_item)
  have ok: "\<exists>res. p_unflatten flat x = Inr (res, drop (leaf_count x) flat) \<and>
                 p_flatten res = take (leaf_count x) flat"
    if "x \<in> set xs" "list_all (kept_by (PyList xs)) flat" "leaf_count x \<le> length flat" for x flat
    using PyList.IH [OF that(1) reg [OF that(1)]] keep [OF that(1,2)] that(3) by blast
  have bad: "p_unflatten flat x = Inl IndexError"
    if "x \<in> set xs" "list_all (kept_by (PyList xs)) flat" "length flat < leaf_count x" for x flat
    using PyList.IH [OF that(1) reg [OF that(1)]] keep [OF that(1,2)] that(3) by blast
  show ?case
  proof (cases "xs = []")
    case True
    then show ?thesis by simp
  next
    case False
    show ?thesis
    proof (intro conjI allI impI)
      fix flat :: "pyval list"
      assume k: "list_all (kept_by (PyList xs)) flat"
        and "leaf_count (PyList xs) \<le> length flat"
      then have "sum_list (map leaf_count xs) \<le> length flat" by simp
      from gen_consume [of xs "kept_by (PyList xs)" flat, OF ok k this] False
      show "\<exists>res. p_unflatten flat (PyList xs) = Inr (res, drop (leaf_count (PyList xs)) flat) \<and>
             p_flatten res = take (leaf_count (PyList xs)) flat"
        by auto
    next
      fix flat :: "pyval list"
      assume k: "list_all (kept_by (PyList xs)) flat"
        and "length flat < leaf_count (PyList xs)"
      then have "length flat < sum_list (map leaf_count xs)" by simp
      from gen_starved [of xs "kept_by (PyList xs)" flat, OF ok bad k this] False
      show "p_unflatten flat (PyList xs) = Inl IndexError" by simp
    qed
  qed
next
  case (PyTuple xs)
  from PyTuple.prems have reg: "\<And>x. x \<in> set xs \<Longrightarrow> regular x"
    by (simp add: list_all_iff)
  have keep: "list_all (kept_by x) flat"
    if "x \<in> set xs" "list_all (kept_by (PyTuple xs)) flat" for x flat
    using that by (auto simp: list_all_iff intro: kept_by_item)
  have ok: "\<exists>res. p_unflatten flat x = Inr (res, drop (leaf_count x) flat) \<and>
                 p_flatten res = take (leaf_count x) flat"
    if "x \<in> set xs" "list_all (kept_by (PyTuple xs)) flat" "leaf_count x \<le> length flat" for x flat
    using PyTuple.IH [OF that(1) reg [OF that(1)]] keep [OF that(1,2)] that(3) by blast
  have bad: "p_unflatten flat x = Inl IndexError"
    if "x \<in> set xs" "list_all (kept_by (PyTuple xs)) flat" "length flat < leaf_count x" for x flat
    using PyTuple.IH [OF that(1) reg [OF that(1)]] keep [OF that(1,2)] that(3) by blast
  show ?case
  proof (cases "xs = []")
    case True
    then show ?thesis by simp
  next
    case False
    show ?thesis
    proof (intro conjI allI impI)
      fix flat :: "pyval list"
      assume k: "list_all (kept_by (PyTuple xs)) flat"
        and "leaf_count (PyTuple xs) \<le> length flat"
      then have "sum_list (map leaf_count xs) \<le> length flat" by simp
      from gen_consume [of xs "kept_by (PyTuple xs)" flat, OF ok k this] False
      show "\<exists>res. p_unflatten flat (PyTuple xs) = Inr (res, drop (leaf_count (PyTuple xs)) flat) \<and>
             p_flatten res = take (leaf_count (PyTuple xs)) flat"
        by auto
    next
      fix flat :: "pyval list"
      assume k: "list_all (kept_by (PyTuple xs)) flat"
        and "length flat < leaf_count (PyTuple xs)"
      then have "length flat < sum_list (map leaf_count xs)" by simp
      from gen_starved [of xs "kept_by (PyTuple xs)" flat, OF ok bad k this] False
      show "p_unflatten flat (PyTuple xs) = Inl IndexError" by simp
    qed
  qed
next
  case (NdArray0 d v)
  then have one: "leaf_count v = 1" by (simp add: leaf_count_leaf)
  show ?case
  proof (intro conjI allI impI)
    fix flat :: "pyval list"
    assume k: "list_all (kept_by (NdArray0 d v)) flat"
      and "leaf_count (NdArray0 d v) \<le> length flat"
    with one obtain x rest where flat: "flat = x # rest" by (cases flat) auto
    with k have kx: "kept_by (NdArray0 d v) x" by simp
    then have leaf: "is_leaf x" and item: "np_item d x = Inr x"
      by (rule kept_by_leaf, rule kept_by_dtype)
    from leaf have "\<not> is_sequence x" by (cases x) simp_all
    with item have "np_array d x = Inr (NdArray0 d x)" by (simp add: np_array_def)
    with flat one leaf
    show "\<exists>res. p_unflatten flat (NdArray0 d v) = Inr (res, drop (leaf_count (NdArray0 d v)) flat) \<and>
           p_flatten res = take (leaf_count (NdArray0 d v)) flat"
      by (simp add: flat0_def flat1_def p_flatten_leaf)
  next
    fix flat :: "pyval list"
    assume "length flat < leaf_count (NdArray0 d v)"
    with one have "flat = []" by simp
    then show "p_unflatten flat (NdArray0 d v) = Inl IndexError" by (simp add: flat0_def)
  qed
next
  case (NdArray d xs)
  from NdArray.prems have reg: "\<And>x. x \<in> set xs \<Longrightarrow> regular x" and ne: "xs \<noteq> []"
    by (simp_all add: list_all_iff)
  have keep: "list_all (kept_by x) flat"
    if "x \<in> set xs" "list_all (kept_by (NdArray d xs)) flat" for x flat
    using that by (auto simp: list_all_iff intro: kept_by_item)
  have ok: "\<exists>res. p_unflatten flat x = Inr (res, drop (leaf_count x) flat) \<and>
                 p_flatten res = take (leaf_count x) flat"
    if "x \<in> set xs" "list_all (kept_by (NdArray d xs)) flat" "leaf_count x \<le> length flat" for x flat
    using NdArray.IH [OF that(1) reg [OF that(1)]] keep [OF that(1,2)] that(3) by blast
  have bad: "p_unflatten flat x = Inl IndexError"
    if "x \<in> set xs" "list_all (kept_by (NdArray d xs)) flat" "length flat < leaf_count x" for x flat
    using NdArray.IH [OF that(1) reg [OF that(1)]] keep [OF that(1,2)] that(3) by blast
  let ?s = "sum_list (map leaf_count xs)"
  show ?case
  proof (intro conjI allI impI)
    fix flat :: "pyval list"
    assume k: "list_all (kept_by (NdArray d xs)) flat"
      and "leaf_count (NdArray d xs) \<le> length flat"
    then have "?s \<le> length flat" by simp
    from gen_consume [of xs "kept_by (NdArray d xs)" flat, OF ok k this]
    obtain rs enc where g: "gen flat xs = Inr (rs, enc, drop ?s flat)"
      and fl: "concat (map p_flatten rs) = take ?s flat" by blast
    let ?dt = "if enc then Object else d"
    have "\<forall>y \<in> set (concat (map p_flatten rs)). is_leaf y \<and> np_item ?dt y = Inr y"
    proof
      fix y assume "y \<in> set (concat (map p_flatten rs))"
      with fl have "y \<in> set flat" by (auto dest: in_set_takeD)
      with k have ky: "kept_by (NdArray d xs) y" by (simp add: list_all_iff)
      then show "is_leaf y \<and> np_item ?dt y = Inr y"
        by (simp add: kept_by_leaf kept_by_dtype np_item_Object_leaf)
    qed
    from np_item_kept(2) [OF this] obtain ys where ys: "np_items ?dt rs = Inr ys"
      and yl: "concat (map p_flatten ys) = concat (map p_flatten rs)" by blast
    from ys have "np_array ?dt (PyList rs) = Inr (NdArray ?dt ys)"
      by (simp add: np_array_def)
    with g ne have "p_unflatten flat (NdArray d xs) = Inr (NdArray ?dt ys, drop ?s flat)"
      by simp
    moreover have "p_flatten (NdArray ?dt ys) = take ?s flat"
      using yl fl by simp
    ultimately
    show "\<exists>res. p_unflatten flat (NdArray d xs) = Inr (res, drop (leaf_count (NdArray d xs)) flat) \<and>
           p_flatten res = take (leaf_count (NdArray d xs)) flat"
      by simp
  next
    fix flat :: "pyval list"
    assume k: "list_all (kept_by (NdArray d xs)) flat"
      and "length flat < leaf_count (NdArray d xs)"
    then have "length flat < ?s" by simp
    from gen_starved [of xs "kept_by (NdArray d xs)" flat, OF ok bad k this] ne
    show "p_unflatten flat (NdArray d xs) = Inl IndexError" by simp
  qed
qed

text \<open>
  For a regular model and a sequence of kept elements: with as many elements as the
  model has leaves, the restored structure flattens to the sequence; with one element
  more \<^verbatim>\<open>unflatten\<close> raises its \<^verbatim>\<open>ValueError\<close>; with one element less it ends in the
  \<^verbatim>\<open>IndexError\<close> of \<^verbatim>\<open>flat[0]\<close>.
\<close>

lemma p_flatten_unflatten:
  assumes "regular M" and "list_all (kept_by M) F" and "length F = leaf_count M"
  shows "\<exists>res. unflatten F M = Inr res \<and> p_flatten res = F"
proof -
  from p_unflatten_kept [OF assms(1)] assms(2,3)
  obtain res where "p_unflatten F M = Inr (res, drop (leaf_count M) F)"
    and "p_flatten res = take (leaf_count M) F"
    by (metis order_refl)
  with assms(3) show ?thesis by (simp add: unflatten_def)
qed

lemma unflatten_one_more:
  assumes "regular M" and "list_all (kept_by M) F" and "length F = leaf_count M + 1"
  shows "unflatten F M = Inl (ValueError ''Flattened iterable has more elements than the model.'')"
proof -
  from p_unflatten_kept [OF assms(1)] assms(2,3)
  obtain res where "p_unflatten F M = Inr (res, drop (leaf_count M) F)"
    by (metis le_add1)
  with assms(3) show ?thesis by (simp add: unflatten_def)
qed

lemma unflatten_one_less:
  assumes "regular M" and "list_all (kept_by M) F" and "length F + 1 = leaf_count M"
  shows "unflatten F M = Inl IndexError"
proof -
  from assms(3) have "length F < leaf_count M" by simp
  with p_unflatten_kept [OF assms(1)] assms(2) have "p_unflatten F M = Inl IndexError" by blast
  then show ?thesis by (simp add: unflatten_def)
qed

section \<open>The round trip on restorable models\<close>

lemma np_item_stored:
  "stored d a \<Longrightarrow> np_item d a = Inr a"
  "list_all (stored d) as \<Longrightarrow> np_items d as = Inr as"
  by (induction d a and d as rule: np_item_np_items.induct) simp_all

lemma stored_restorable: "stored d x \<Longrightarrow> restorable x"
  by (cases x) simp_all

lemma stored_leaf_or_array: "stored d x \<Longrightarrow> is_Variable x \<Longrightarrow> d = Object"
  by (cases x) simp_all

lemma gen_roundtrip:
  assumes "\<And>x rest. x \<in> set xs \<Longrightarrow> p_unflatten (p_flatten x @ rest) x = Inr (x, rest)"
  shows "gen (concat (map p_flatten xs) @ rest) xs = Inr (xs, list_ex is_Variable xs, rest)"
  using assms
proof (induction xs arbitrary: rest)
  case Nil
  show ?case by simp
next
  case (Cons x xs)
  have x: "p_unflatten (p_flatten x @ (concat (map p_flatten xs) @ rest)) x
           = Inr (x, concat (map p_flatten xs) @ rest)"
    by (rule Cons.prems) simp
  have xs: "gen (concat (map p_flatten xs) @ rest) xs = Inr (xs, list_ex is_Variable xs, rest)"
    by (rule Cons.IH) (use Cons.prems in auto)
  show ?case by (simp add: x xs)
qed

lemma p_unflatten_p_flatten:
  "restorable M \<Longrightarrow> p_unflatten (p_flatten M @ rest) M = Inr (M, rest)"
proof (induction M arbitrary: rest)
  case (PyList xs)
  then have ne: "xs \<noteq> []" and el: "\<And>x. x \<in> set xs \<Longrightarrow> restorable x"
    by (simp_all add: list_all_iff)
  have "gen (concat (map p_flatten xs) @ rest) xs = Inr (xs, list_ex is_Variable xs, rest)"
    by (rule gen_roundtrip) (use PyList.IH el in auto)
  with ne show ?case by simp
next
  case (PyTuple xs)
  then have el: "\<And>x. x \<in> set xs \<Longrightarrow> restorable x"
    by (simp add: list_all_iff)
  have "gen (concat (map p_flatten xs) @ rest) xs = Inr (xs, list_ex is_Variable xs, rest)"
    by (rule gen_roundtrip) (use PyTuple.IH el in auto)
  then show ?case by (cases "xs = []") simp_all
next
  case (NdArray d xs)
  then have ne: "xs \<noteq> []" and st: "list_all (stored d) xs"
    by simp_all
  from st have el: "\<And>x. x \<in> set xs \<Longrightarrow> restorable x"
    by (auto simp: list_all_iff intro: stored_restorable)
  have g: "gen (concat (map p_flatten xs) @ rest) xs = Inr (xs, list_ex is_Variable xs, rest)"
    by (rule gen_roundtrip) (use NdArray.IH el in auto)
  have dt: "(if list_ex is_Variable xs then Object else d) = d"
    using st by (auto simp: list_ex_iff list_all_iff dest: stored_leaf_or_array)
  have "np_array d (PyList xs) = Inr (NdArray d xs)"
    using np_item_stored(2) [OF st] by (simp add: np_array_def)
  with ne g dt show ?case by simp
next
  case (NdArray0 d v)
  then have leaf: "is_leaf v" and st: "stored d v" by simp_all
  from leaf have "\<not> is_sequence v" by (cases v) simp_all
  with np_item_stored(1) [OF st] have "np_array d v = Inr (NdArray0 d v)"
    by (simp add: np_array_def)
  with leaf show ?case by (simp add: p_flatten_leaf flat0_def flat1_def)
qed (simp_all add: flat0_def flat1_def)

text \<open>
  Restoring the flattened form of a restorable model against the model gives the model
  back.
\<close>

lemma unflatten_p_flatten: "restorable M \<Longrightarrow> unflatten (p_flatten M) M = Inr M"
  using p_unflatten_p_flatten [of M "[]"] by (simp add: unflatten_def)


section \<open>Rank-0 arrays\<close>




section \<open>Zero-length containers and the dtype flag\<close>

text \<open>
  C9. The zero-length branch of \<^verbatim>\<open>_unflatten\<close> on the inputs the claim speaks of. For
  an empty list it consumes nothing and returns the empty tuple \<^verbatim>\<open>()\<close>, not an empty
  list; for an array of dtype \<^verbatim>\<open>float64\<close> and of length zero along axis 0 (shape
  \<^verbatim>\<open>(0,)\<close>, say), which is not of rank 0, it consumes one number and returns it as an
  array of shape \<^verbatim>\<open>()\<close>.
\<close>

theorem p_unflatten_zero_length:
  "p_unflatten flat (PyList []) = Inr (PyTuple [], flat) \<and>
   p_unflatten flat (PyTuple []) = Inr (PyTuple [], flat) \<and>
   p_unflatten (Num r # flat) (NdArray Float64 []) = Inr (NdArray0 Float64 (Num r), flat)"
  by (simp add: flat0_def flat1_def np_array_def np_cast_def)

text \<open>
  C1. The round trip at the empty list and at the empty array: the flattened form of
  either is the empty sequence; restoring it against the empty list gives the empty
  tuple, and against the empty array it raises \<^verbatim>\<open>IndexError\<close>.
\<close>

theorem unflatten_p_flatten_empty:
  "p_flatten (PyList []) = [] \<and>
   unflatten (p_flatten (PyList [])) (PyList []) = Inr (PyTuple []) \<and>
   unflatten (p_flatten (PyList [Num 1, PyList []])) (PyList [Num 1, PyList []])
     = Inr (PyList [Num 1, PyTuple []]) \<and>
   unflatten (p_flatten (NdArray Float64 [])) (NdArray Float64 []) = Inl IndexError"
  by (simp add: unflatten_def flat0_def flat1_def)

text \<open>
  C7. The empty array of shape \<^verbatim>\<open>(0,)\<close> has no leaf, yet \<^verbatim>\<open>unflatten\<close> accepts a
  sequence of one element for it and returns an array of shape \<^verbatim>\<open>()\<close>; no error is
  raised.
\<close>

theorem unflatten_empty_array_one_element:
  "leaf_count (NdArray Float64 []) = 0 \<and>
   unflatten [Num 1] (NdArray Float64 []) = Inr (NdArray0 Float64 (Num 1))"
  by (simp add: unflatten_def flat0_def flat1_def np_array_def np_cast_def)

text \<open>
  C8. A model of shape \<^verbatim>\<open>(1, 1)\<close> and dtype \<^verbatim>\<open>float64\<close>, restored from a sequence that
  holds a \<^verbatim>\<open>Variable\<close>: the row is built with dtype \<^verbatim>\<open>object\<close>, but the item restored
  for the row is an array and not a \<^verbatim>\<open>Variable\<close>, so the flag is not set and the array
  itself is built with the dtype of the model, under which numpy refuses the
  \<^verbatim>\<open>Variable\<close>: \<^verbatim>\<open>_unflatten\<close> ends in a \<^verbatim>\<open>TypeError\<close>, and so does \<^verbatim>\<open>unflatten\<close>. A model
  of shape \<^verbatim>\<open>(1,)\<close> is restored from the same sequence with the dtype \<^verbatim>\<open>object\<close>.
\<close>

theorem p_unflatten_matrix_dtype:
  "p_unflatten [Var 0] (NdArray Float64 [NdArray Float64 [Num 1]]) = Inl (TypeError ''Variable'') \<and>
   unflatten [Var 0] (NdArray Float64 [NdArray Float64 [Num 1]]) = Inl (TypeError ''Variable'') \<and>
   p_unflatten [Var 0] (NdArray Float64 [Num 1]) = Inr (NdArray Object [Var 0], [])"
  by (simp add: unflatten_def flat0_def flat1_def np_array_def)

end
